theory Spec2Isabelle
  imports Main "HOL-Library.Word" "HOL-Library.AList"
begin

section \<open>The IPC session engine of discord-ipc (src/index.js, class DiscordIPC)\<close>

text \<open>
  The engine is event driven: socket events, timers and the caller's method calls each run
  one handler to completion on a single thread. Every handler is a function from the
  session to the session. What a handler writes to the socket, emits to its listeners
  or logs is appended to a list in the session, and the promise of every correlated command
  is a number whose resolve and reject calls are appended to \<open>settlements\<close>.
  An exception is a value: a handler that can throw returns \<open>(error \<times> session) + session\<close>,
  the session of \<open>Inl\<close> being the one the exception leaves behind.
\<close>

subsection \<open>Bytes and the 8-byte header\<close>

type_synonym byte = "8 word"
type_synonym bytes = "byte list"

text \<open>
  Every \<open>new Error(...)\<close> of the source is a constructor, with its text in \<open>message_of\<close>;
  \<open>RangeError\<close> is the out-of-range error of Buffer, \<open>TypeError\<close> the property read on
  \<open>undefined\<close> or \<open>null\<close> and the call of something that is no function.
\<close>

datatype error =
    NotConnected
  | CommandTimeout string
  | RemoteError string
  | InvalidClientId "string option"
  | ClientIdRequired
  | TooManyButtons
  | AssetNotString string
  | ConnectionFailure
  | TransportError string
  | SyntaxError
  | RangeError
  | TypeError

fun message_of :: "error \<Rightarrow> string" where
  "message_of NotConnected = ''Not connected to Discord''"
| "message_of (CommandTimeout cmd) = ''Command '' @ cmd @ '' timed out''"
| "message_of (RemoteError m) = m"
| "message_of (InvalidClientId cid) =
     ''Invalid Client ID: '' @ (case cid of None \<Rightarrow> ''undefined'' | Some c \<Rightarrow> c)
       @ ''. Please check your Discord Application ID.''"
| "message_of ClientIdRequired = ''Client ID is required''"
| "message_of TooManyButtons = ''Maximum 2 buttons allowed''"
| "message_of (AssetNotString k) = ''Asset '' @ k @ '' must be a string''"
| "message_of ConnectionFailure = ''Could not connect to Discord''"
| "message_of (TransportError text) = text"
| "message_of SyntaxError = ''Unexpected token in JSON''"
| "message_of RangeError = ''The value of \"value\" is out of range.''"
| "message_of TypeError = ''Cannot read properties of undefined''"

definition le_bytes :: "nat \<Rightarrow> bytes" where
  "le_bytes n = [of_nat n, of_nat (n div 256), of_nat (n div 65536), of_nat (n div 16777216)]"

text \<open>\<open>header.writeUInt32LE(value, offset)\<close>: the four bytes, or a RangeError.\<close>

definition writeUInt32LE :: "int \<Rightarrow> error + bytes" where
  "writeUInt32LE v =
     (if v < 0 \<or> 4294967295 < v then Inl RangeError else Inr (le_bytes (nat v)))"

text \<open>\<open>buffer.readUInt32LE(offset)\<close>: a RangeError when four bytes are not there.\<close>

definition readUInt32LE :: "bytes \<Rightarrow> nat \<Rightarrow> error + nat" where
  "readUInt32LE buf off =
     (if length buf < off + 4 then Inl RangeError
      else Inr (unat (buf ! off) + 256 * unat (buf ! (off + 1))
                + 65536 * unat (buf ! (off + 2)) + 16777216 * unat (buf ! (off + 3))))"

subsection \<open>JavaScript values\<close>

text \<open>
  The values that travel as JSON, and \<open>Date\<close>, which an activity may carry. Numbers are
  integers here: the engine only tests them for truthiness and divides a time stamp by
  1000. \<open>undefined\<close> is \<open>None\<close> of \<open>jsval option\<close>. An object is the list of its
  properties; \<open>map_of\<close> reads one.
\<close>

datatype jsval =
    JNull
  | JBool bool
  | JNum int
  | JStr string
  | JDate int
  | JArr "jsval list"
  | JObj "(string \<times> jsval) list"

text \<open>
  The builtins of the JavaScript runtime are parameters of the model:
  \<open>JSON_parse\<close> is \<open>JSON.parse(payload.toString())\<close>, \<open>None\<close> when it throws;
  \<open>JSON_stringify\<close> is \<open>Buffer.from(JSON.stringify(data))\<close>, the UTF-8 bytes of the text;
  \<open>to_String\<close> is the conversion \<open>new Error(value)\<close> applies to its argument.
\<close>

record runtime =
  JSON_parse :: "bytes \<Rightarrow> jsval option"
  JSON_stringify :: "jsval \<Rightarrow> bytes"
  to_String :: "jsval \<Rightarrow> string"

fun truthy :: "jsval option \<Rightarrow> bool" where
  "truthy None = False"
| "truthy (Some JNull) = False"
| "truthy (Some (JBool b)) = b"
| "truthy (Some (JNum n)) = (n \<noteq> 0)"
| "truthy (Some (JStr s)) = (s \<noteq> [])"
| "truthy (Some _) = True"

text \<open>
  \<open>value.key\<close> for the property names the engine reads (none of them is one a string,
  an array or a date has of its own): a TypeError on \<open>undefined\<close> and \<open>null\<close>,
  \<open>undefined\<close> on every other value that is no object.
\<close>

fun get_prop :: "jsval option \<Rightarrow> string \<Rightarrow> error + jsval option" where
  "get_prop None k = Inl TypeError"
| "get_prop (Some JNull) k = Inl TypeError"
| "get_prop (Some (JObj fs)) k = Inr (map_of fs k)"
| "get_prop (Some _) k = Inr None"

text \<open>\<open>typeof v === 'object'\<close> and \<open>typeof v !== 'string'\<close>.\<close>

fun typeof_object :: "jsval option \<Rightarrow> bool" where
  "typeof_object (Some JNull) = True"
| "typeof_object (Some (JDate _)) = True"
| "typeof_object (Some (JArr _)) = True"
| "typeof_object (Some (JObj _)) = True"
| "typeof_object _ = False"

fun typeof_string :: "jsval option \<Rightarrow> bool" where
  "typeof_string (Some (JStr _)) = True"
| "typeof_string _ = False"

subsection \<open>The session\<close>

datatype level = Info | Warn | ErrorLevel

datatype logline =
    Initialized
  | AlreadyConnected
  | ConnectedVia nat
  | FailedToConnect nat
  | Received jsval
  | Sent jsval
  | FailedToParse error
  | SocketClosed
  | SocketError string
  | AuthorizationSuccessful
  | AuthorizationFailed string
  | ContinuingWithoutAuth
  | FailedToSetActivity string
  | SchedulingReconnect nat int
  | DisconnectedFromDiscord

datatype event =
    EvConnect
  | EvDisconnect
  | EvAuthenticated
  | EvReady "jsval option"
  | EvError error
  | EvDispatch "jsval option" "jsval option"
  | EvMessage jsval
  | EvActivitySet "(string \<times> jsval) list"
  | EvActivityCleared

datatype outcome = Resolved jsval | Rejected error

text \<open>
  The fields of \<open>this\<close>, then what the handlers do to the world around them:
  \<open>next_id\<close> numbers the promises of \<open>sendCommand\<close> (a promise, its timer and its callback
  share the number); \<open>timers\<close> holds the armed command timers with the nonce and command
  their callback closes over; \<open>settlements\<close> lists every call of a promise's \<open>resolve\<close> or
  \<open>reject\<close> in order (the first one for a promise is its state, as in JavaScript);
  \<open>reconnectTimers\<close> the delays handed to \<open>setTimeout\<close> by \<open>scheduleReconnect\<close>;
  \<open>wire\<close> the buffers given to \<open>socket.write\<close>; \<open>events\<close> the calls of \<open>emit\<close>;
  \<open>logs\<close> the lines of \<open>log\<close>. \<open>socket\<close> says whether \<open>this.socket\<close> holds a socket.
  Listeners are taken to return normally, so a call of \<open>emit\<close> only adds to \<open>events\<close>.
  Time is not part of the model: a timer is armed, and fires when the run says so.
\<close>

record session =
  clientId :: "string option"
  debug :: bool
  autoReconnect :: bool
  reconnectDelay :: int
  maxReconnectAttempts :: int
  socket :: bool
  connected :: bool
  authenticated :: bool
  reconnectAttempts :: nat
  currentActivity :: "(string \<times> jsval) list option"
  messageQueue :: "(int \<times> jsval) list"
  pendingResponses :: "(string \<times> nat) list"
  heartbeatInterval :: bool
  next_id :: nat
  timers :: "(nat \<times> string \<times> string) list"
  settlements :: "(nat \<times> outcome) list"
  reconnectTimers :: "int list"
  wire :: "bytes list"
  events :: "event list"
  logs :: "(level \<times> logline) list"

record options =
  opt_clientId :: "string option"
  opt_debug :: "bool option"
  opt_autoReconnect :: "bool option"
  opt_reconnectDelay :: "int option"
  opt_maxReconnectAttempts :: "int option"

definition log :: "session \<Rightarrow> level \<Rightarrow> logline \<Rightarrow> session" where
  "log s lvl line = (if debug s then s\<lparr>logs := logs s @ [(lvl, line)]\<rparr> else s)"

definition emit :: "session \<Rightarrow> event \<Rightarrow> session" where
  "emit s e = s\<lparr>events := events s @ [e]\<rparr>"

text \<open>The constructor; \<open>x || d\<close> takes the default for a missing and for a falsy \<open>x\<close>.\<close>

definition constructor :: "options \<Rightarrow> session" where
  "constructor opts =
     log \<lparr> clientId = opt_clientId opts,
           debug = (case opt_debug opts of None \<Rightarrow> False | Some b \<Rightarrow> b),
           autoReconnect = (opt_autoReconnect opts \<noteq> Some False),
           reconnectDelay =
             (case opt_reconnectDelay opts of None \<Rightarrow> 5000
              | Some d \<Rightarrow> if d = 0 then 5000 else d),
           maxReconnectAttempts =
             (case opt_maxReconnectAttempts opts of None \<Rightarrow> 10
              | Some m \<Rightarrow> if m = 0 then 10 else m),
           socket = False, connected = False, authenticated = False,
           reconnectAttempts = 0, currentActivity = None,
           messageQueue = [], pendingResponses = [], heartbeatInterval = False,
           next_id = 0, timers = [], settlements = [], reconnectTimers = [],
           wire = [], events = [], logs = [] \<rparr> Info Initialized"

text \<open>
  A promise settles once: \<open>promise_state\<close> is the first settlement recorded for it, and
  a later call of its \<open>resolve\<close> or \<open>reject\<close> changes nothing a caller can see.
\<close>

definition settle :: "session \<Rightarrow> nat \<Rightarrow> outcome \<Rightarrow> session" where
  "settle s r out = s\<lparr>settlements := settlements s @ [(r, out)]\<rparr>"

definition promise_state :: "session \<Rightarrow> nat \<Rightarrow> outcome option" where
  "promise_state s r = map_of (settlements s) r"

subsection \<open>send and processQueue\<close>

definition frame_bytes :: "runtime \<Rightarrow> int \<Rightarrow> jsval \<Rightarrow> error + bytes" where
  "frame_bytes rt opcode data =
     (let payload = JSON_stringify rt data in
      case writeUInt32LE opcode of
        Inl e \<Rightarrow> Inl e
      | Inr h1 \<Rightarrow>
         (case writeUInt32LE (int (length payload)) of
            Inl e \<Rightarrow> Inl e
          | Inr h2 \<Rightarrow> Inr (h1 @ h2 @ payload)))"

definition send :: "runtime \<Rightarrow> session \<Rightarrow> int \<Rightarrow> jsval \<Rightarrow> (error \<times> session) + session" where
  "send rt s opcode data =
     (if \<not> connected s then
        (if autoReconnect s then Inr (s\<lparr>messageQueue := messageQueue s @ [(opcode, data)]\<rparr>)
         else Inl (NotConnected, s))
      else
        (case frame_bytes rt opcode data of
           Inl e \<Rightarrow> Inl (e, s)
         | Inr frame \<Rightarrow>
            if socket s then Inr (log (s\<lparr>wire := wire s @ [frame]\<rparr>) Info (Sent data))
            else Inl (TypeError, s)))"

partial_function (option) processQueue ::
  "runtime \<Rightarrow> session \<Rightarrow> ((error \<times> session) + session) option" where
  "processQueue rt s =
     (case messageQueue s of
        [] \<Rightarrow> Some (Inr s)
      | entry # rest \<Rightarrow>
         (case send rt (s\<lparr>messageQueue := rest\<rparr>) (fst entry) (snd entry) of
            Inl x \<Rightarrow> Some (Inl x)
          | Inr s' \<Rightarrow> processQueue rt s'))"

subsection \<open>The socket's data handler\<close>

text \<open>
  The handler of \<open>'data'\<close> appends the chunk to \<open>buffer\<close>, a variable of the closure, and
  runs the loop below. The loop is written over any handler \<open>h\<close> of a frame and any state
  \<open>'s\<close> the handler threads; the engine's \<open>h\<close> is \<open>handleMessage\<close>.
\<close>

function data_loop ::
  "('s \<Rightarrow> nat \<Rightarrow> bytes \<Rightarrow> 's) \<Rightarrow> 's \<Rightarrow> bytes \<Rightarrow> error + ('s \<times> bytes)" where
  "data_loop h s buffer =
     (if 8 \<le> length buffer then
        (case readUInt32LE buffer 0 of
           Inl e \<Rightarrow> Inl e
         | Inr opcode \<Rightarrow>
            (case readUInt32LE buffer 4 of
               Inl e \<Rightarrow> Inl e
             | Inr len \<Rightarrow>
                if length buffer < 8 + len then Inr (s, buffer)
                else data_loop h (h s opcode (take len (drop 8 buffer)))
                       (drop (8 + len) buffer)))
      else Inr (s, buffer))"
  by pat_completeness auto
termination
  by (relation "measure (\<lambda>(h, s, buffer). length buffer)") auto

definition on_data ::
  "('s \<Rightarrow> nat \<Rightarrow> bytes \<Rightarrow> 's) \<Rightarrow> 's \<times> bytes \<Rightarrow> bytes \<Rightarrow> error + ('s \<times> bytes)" where
  "on_data h sb data = data_loop h (fst sb) (snd sb @ data)"

text \<open>Chunk after chunk through the handler, the buffer carried from one to the next.\<close>

fun feed ::
  "('s \<Rightarrow> nat \<Rightarrow> bytes \<Rightarrow> 's) \<Rightarrow> 's \<times> bytes \<Rightarrow> bytes list \<Rightarrow> error + ('s \<times> bytes)" where
  "feed h sb [] = Inr sb"
| "feed h sb (chunk # chunks) =
     (case on_data h sb chunk of Inl e \<Rightarrow> Inl e | Inr sb' \<Rightarrow> feed h sb' chunks)"

text \<open>The handler that only records the frames it is given, in order.\<close>

definition collect :: "(nat \<times> bytes) list \<Rightarrow> nat \<Rightarrow> bytes \<Rightarrow> (nat \<times> bytes) list" where
  "collect acc opcode payload = acc @ [(opcode, payload)]"

subsection \<open>Correlated commands\<close>

definition sendCommand ::
  "runtime \<Rightarrow> session \<Rightarrow> string \<Rightarrow> jsval \<Rightarrow> nat \<Rightarrow> string \<Rightarrow> session \<times> nat" where
  "sendCommand rt s cmd args timeout nonce =
     (let r = next_id s;
          message = JObj [(''cmd'', JStr cmd), (''nonce'', JStr nonce), (''args'', args)];
          s1 = s\<lparr>next_id := Suc r, timers := AList.update r (nonce, cmd) (timers s)\<rparr>;
          s2 = s1\<lparr>pendingResponses := AList.update nonce r (pendingResponses s1)\<rparr>
      in case send rt s2 1 message of
           Inl (e, s3) \<Rightarrow> (settle s3 r (Rejected e), r)
         | Inr s3 \<Rightarrow> (s3, r))"

text \<open>The callback of \<open>setTimeout\<close> in \<open>sendCommand\<close>; a cleared timer never runs.\<close>

definition command_timeout :: "session \<Rightarrow> nat \<Rightarrow> session" where
  "command_timeout s r =
     (case map_of (timers s) r of
        None \<Rightarrow> s
      | Some (nonce, cmd) \<Rightarrow>
          settle (s\<lparr>timers := AList.delete r (timers s),
                    pendingResponses := AList.delete nonce (pendingResponses s)\<rparr>)
            r (Rejected (CommandTimeout cmd)))"

definition error_text :: "runtime \<Rightarrow> jsval option \<Rightarrow> string" where
  "error_text rt m = (case m of None \<Rightarrow> [] | Some v \<Rightarrow> to_String rt v)"

text \<open>The function \<open>sendCommand\<close> stores in \<open>pendingResponses\<close> for promise \<open>r\<close>.\<close>

definition response_callback ::
  "runtime \<Rightarrow> session \<Rightarrow> nat \<Rightarrow> jsval \<Rightarrow> (error \<times> session) + session" where
  "response_callback rt s r response =
     (let s1 = s\<lparr>timers := AList.delete r (timers s)\<rparr> in
      case get_prop (Some response) ''evt'' of
        Inl e \<Rightarrow> Inl (e, s1)
      | Inr evt \<Rightarrow>
          if evt = Some (JStr ''ERROR'') then
            (case get_prop (Some response) ''data'' of
               Inl e \<Rightarrow> Inl (e, s1)
             | Inr d \<Rightarrow>
                (case get_prop d ''message'' of
                   Inl e \<Rightarrow> Inl (e, s1)
                 | Inr m \<Rightarrow> Inr (settle s1 r (Rejected (RemoteError (error_text rt m))))))
          else Inr (settle s1 r (Resolved response)))"

definition handleDispatch :: "runtime \<Rightarrow> session \<Rightarrow> jsval \<Rightarrow> (error \<times> session) + session" where
  "handleDispatch rt s message =
     (case get_prop (Some message) ''evt'' of
        Inl e \<Rightarrow> Inl (e, s)
      | Inr evt \<Rightarrow>
         (case get_prop (Some message) ''data'' of
            Inl e \<Rightarrow> Inl (e, s)
          | Inr data \<Rightarrow>
              if evt = Some (JStr ''READY'') then Inr (emit s (EvReady data))
              else if evt = Some (JStr ''ERROR'') then
                (case get_prop data ''message'' of
                   Inl e \<Rightarrow> Inl (e, s)
                 | Inr m \<Rightarrow> Inr (emit s (EvError (RemoteError (error_text rt m)))))
              else Inr (emit s (EvDispatch evt data))))"

text \<open>
  \<open>message.nonce && this.pendingResponses.has(message.nonce)\<close>: the keys of the map are
  strings, so only a string that is not empty can be found.
\<close>

fun pending_lookup :: "session \<Rightarrow> jsval option \<Rightarrow> (string \<times> nat) option" where
  "pending_lookup s (Some (JStr n)) =
     (if n = [] then None
      else (case map_of (pendingResponses s) n of None \<Rightarrow> None | Some r \<Rightarrow> Some (n, r)))"
| "pending_lookup s _ = None"

text \<open>The body of the \<open>try\<close> in \<open>handleMessage\<close>, then the method with its \<open>catch\<close>.\<close>

definition handleMessage_try ::
  "runtime \<Rightarrow> session \<Rightarrow> bytes \<Rightarrow> (error \<times> session) + session" where
  "handleMessage_try rt s payload =
     (case JSON_parse rt payload of
        None \<Rightarrow> Inl (SyntaxError, s)
      | Some message \<Rightarrow>
         (let s1 = log s Info (Received message) in
          case get_prop (Some message) ''nonce'' of
            Inl e \<Rightarrow> Inl (e, s1)
          | Inr nonce \<Rightarrow>
             (case pending_lookup s1 nonce of
                Some (n, r) \<Rightarrow>
                  response_callback rt
                    (s1\<lparr>pendingResponses := AList.delete n (pendingResponses s1)\<rparr>) r message
              | None \<Rightarrow>
                 (case get_prop (Some message) ''cmd'' of
                    Inl e \<Rightarrow> Inl (e, s1)
                  | Inr cmd \<Rightarrow>
                      if cmd = Some (JStr ''DISPATCH'') then handleDispatch rt s1 message
                      else Inr (emit s1 (EvMessage message))))))"

definition handleMessage :: "runtime \<Rightarrow> session \<Rightarrow> nat \<Rightarrow> bytes \<Rightarrow> session" where
  "handleMessage rt s opcode payload =
     (case handleMessage_try rt s payload of
        Inl (e, s') \<Rightarrow> log s' ErrorLevel (FailedToParse e)
      | Inr s' \<Rightarrow> s')"

subsection \<open>Connection, reconnection, disconnect\<close>

definition scheduleReconnect :: "session \<Rightarrow> session" where
  "scheduleReconnect s =
     (let s1 = s\<lparr>reconnectAttempts := reconnectAttempts s + 1\<rparr>;
          delay = min (reconnectDelay s1 * 2 ^ (reconnectAttempts s1 - 1)) 30000;
          s2 = log s1 Info (SchedulingReconnect (reconnectAttempts s1) delay)
      in s2\<lparr>reconnectTimers := reconnectTimers s2 @ [delay]\<rparr>)"

definition clearHeartbeat :: "session \<Rightarrow> session" where
  "clearHeartbeat s = (if heartbeatInterval s then s\<lparr>heartbeatInterval := False\<rparr> else s)"

text \<open>The handler of the socket's \<open>'close'\<close>.\<close>

definition on_close :: "session \<Rightarrow> session" where
  "on_close s =
     (let s1 = log s Info SocketClosed;
          s2 = clearHeartbeat (s1\<lparr>connected := False, authenticated := False\<rparr>);
          s3 = emit s2 EvDisconnect
      in if autoReconnect s3 \<and> int (reconnectAttempts s3) < maxReconnectAttempts s3
         then scheduleReconnect s3 else s3)"

text \<open>
  \<open>connect\<close> tries the ten paths in order. Which of them accepts is the world's choice:
  \<open>accepting\<close> is the index of the first path whose socket connects, if there is one.
\<close>

definition connect :: "session \<Rightarrow> nat option \<Rightarrow> (error \<times> session) + session" where
  "connect s accepting =
     (if connected s then Inr (log s Info AlreadyConnected)
      else
        (let failed = (case accepting of None \<Rightarrow> 10 | Some k \<Rightarrow> min k 10);
             s1 = foldl (\<lambda>t i. log t Warn (FailedToConnect i)) s [0..<failed]
         in if failed < 10 then
              Inr (emit ((log (s1\<lparr>socket := True, connected := True\<rparr>) Info (ConnectedVia failed))
                         \<lparr>reconnectAttempts := 0\<rparr>) EvConnect)
            else Inl (ConnectionFailure, s1)))"

definition disconnect :: "session \<Rightarrow> session" where
  "disconnect s =
     (let s1 = clearHeartbeat (s\<lparr>autoReconnect := False\<rparr>);
          s2 = s1\<lparr>socket := False, connected := False, authenticated := False,
                  pendingResponses := [], messageQueue := []\<rparr>
      in log (emit s2 EvDisconnect) Info DisconnectedFromDiscord)"

definition handshake :: "runtime \<Rightarrow> session \<Rightarrow> (error \<times> session) + session" where
  "handshake rt s =
     (case clientId s of
        None \<Rightarrow> Inl (ClientIdRequired, s)
      | Some cid \<Rightarrow>
          if cid = [] then Inl (ClientIdRequired, s)
          else (case send rt s 0 (JObj [(''v'', JNum 1), (''client_id'', JStr cid)]) of
                  Inl x \<Rightarrow> Inl x
                | Inr s' \<Rightarrow> Inr (s'\<lparr>heartbeatInterval := True\<rparr>)))"

subsection \<open>authenticate\<close>

text \<open>
  An \<open>async\<close> method runs to its \<open>await\<close>, and runs on when the awaited promise has
  settled: \<open>authenticate_start\<close> is the part before the \<open>await\<close> of \<open>sendCommand\<close>,
  \<open>authenticate_resume\<close> the part after it, given what the promise settled with. Other
  handlers may run in between. \<open>await\<close> reads a promise: \<open>None\<close> while it is pending.
\<close>

definition await :: "session \<Rightarrow> nat \<Rightarrow> outcome option" where
  "await s r = promise_state s r"

text \<open>\<open>text.includes(part)\<close>.\<close>

fun str_includes :: "string \<Rightarrow> string \<Rightarrow> bool" where
  "str_includes [] part = (part = [])"
| "str_includes (c # cs) part = (take (length part) (c # cs) = part \<or> str_includes cs part)"

text \<open>An object literal; a property whose value is \<open>undefined\<close> is not serialised.\<close>

definition js_object :: "(string \<times> jsval option) list \<Rightarrow> jsval" where
  "js_object fs = JObj (List.map_filter (\<lambda>(k, v). map_option (Pair k) v) fs)"

definition no_token :: "string option \<Rightarrow> bool" where
  "no_token accessToken = (case accessToken of None \<Rightarrow> True | Some t \<Rightarrow> t = [])"

definition authenticate_start ::
  "runtime \<Rightarrow> session \<Rightarrow> string option \<Rightarrow> string \<Rightarrow> session \<times> nat" where
  "authenticate_start rt s accessToken nonce =
     (if no_token accessToken then
        sendCommand rt s ''AUTHORIZE''
          (js_object [(''client_id'', map_option JStr (clientId s)),
                      (''scopes'', Some (JArr [JStr ''rpc'']))])
          15000 nonce
      else
        sendCommand rt s ''AUTHENTICATE''
          (js_object [(''access_token'', map_option JStr accessToken)]) 10000 nonce)"

definition authenticate_finish ::
  "runtime \<Rightarrow> session \<Rightarrow> ((error \<times> session) + session) option" where
  "authenticate_finish rt s = processQueue rt (emit (s\<lparr>authenticated := True\<rparr>) EvAuthenticated)"

definition authenticate_resume ::
  "runtime \<Rightarrow> session \<Rightarrow> string option \<Rightarrow> outcome \<Rightarrow> ((error \<times> session) + session) option" where
  "authenticate_resume rt s accessToken out =
     (if no_token accessToken then
        (case out of
           Resolved response \<Rightarrow> authenticate_finish rt (log s Info AuthorizationSuccessful)
         | Rejected e \<Rightarrow>
            (let s1 = log s Warn (AuthorizationFailed (message_of e)) in
             if str_includes (message_of e) ''Invalid Client ID''
                \<or> str_includes (message_of e) ''Unknown Application''
             then Some (Inl (InvalidClientId (clientId s1), s1))
             else authenticate_finish rt (log s1 Warn ContinuingWithoutAuth)))
      else
        (case out of
           Resolved response \<Rightarrow> authenticate_finish rt s
         | Rejected e \<Rightarrow> Some (Inl (e, s))))"

subsection \<open>setActivity\<close>

fun digit_char :: "nat \<Rightarrow> char" where
  "digit_char n = char_of (48 + n)"

function decimal :: "nat \<Rightarrow> string" where
  "decimal n = (if n < 10 then [digit_char n] else decimal (n div 10) @ [digit_char (n mod 10)])"
  by pat_completeness auto
termination
  by (relation "measure id") auto

text \<open>
  \<open>Object.keys(value)\<close> with the values: the properties of an object in the order of its
  list, the indices of an array; a string has its characters, which are strings, and
  every other value has none.
\<close>

fun own_entries :: "jsval \<Rightarrow> (string \<times> jsval) list" where
  "own_entries (JObj fs) = fs"
| "own_entries (JArr xs) = zip (map decimal [0..<length xs]) xs"
| "own_entries (JStr cs) = zip (map decimal [0..<length cs]) (map (\<lambda>c. JStr [c]) cs)"
| "own_entries _ = []"

text \<open>
  \<open>value.length > 2\<close>: the length of an array or of a string, the numeric property
  \<open>length\<close> of an object; \<open>undefined > 2\<close> is false.
\<close>

fun length_exceeds_two :: "jsval option \<Rightarrow> bool" where
  "length_exceeds_two (Some (JArr xs)) = (2 < length xs)"
| "length_exceeds_two (Some (JStr cs)) = (2 < length cs)"
| "length_exceeds_two (Some (JObj fs)) =
     (case map_of fs ''length'' of Some (JNum n) \<Rightarrow> 2 < n | _ \<Rightarrow> False)"
| "length_exceeds_two _ = False"

text \<open>
  One of \<open>timestamps.start\<close> and \<open>timestamps.end\<close>: an object there must be a \<open>Date\<close>, whose
  \<open>getTime()\<close> is in milliseconds; \<open>Math.floor\<close> of the quotient is \<open>div\<close>.
\<close>

definition convert_stamp :: "jsval option \<Rightarrow> string \<Rightarrow> error + jsval option" where
  "convert_stamp ts k =
     (case get_prop ts k of
        Inl e \<Rightarrow> Inl e
      | Inr v \<Rightarrow>
          if truthy v \<and> typeof_object v then
            (case (v, ts) of
               (Some (JDate ms), Some (JObj fs)) \<Rightarrow>
                  Inr (Some (JObj (AList.update k (JNum (ms div 1000)) fs)))
             | _ \<Rightarrow> Inl TypeError)
          else Inr ts)"

definition processActivity ::
  "session \<Rightarrow> (string \<times> jsval) list \<Rightarrow> error + (string \<times> jsval) list" where
  "processActivity s activity =
     (let p1 = (if \<not> truthy (map_of activity ''application_id'') then
                  (case clientId s of
                     None \<Rightarrow> AList.delete ''application_id'' activity
                   | Some cid \<Rightarrow> AList.update ''application_id'' (JStr cid) activity)
                else activity);
          stamped =
            (if truthy (map_of p1 ''timestamps'') then
               (case convert_stamp (map_of p1 ''timestamps'') ''start'' of
                  Inl e \<Rightarrow> Inl e
                | Inr ts1 \<Rightarrow>
                   (case convert_stamp ts1 ''end'' of
                      Inl e \<Rightarrow> Inl e
                    | Inr None \<Rightarrow> Inr p1
                    | Inr (Some ts2) \<Rightarrow> Inr (AList.update ''timestamps'' ts2 p1)))
             else Inr p1)
      in case stamped of
           Inl e \<Rightarrow> Inl e
         | Inr p2 \<Rightarrow>
             if truthy (map_of p2 ''buttons'') \<and> length_exceeds_two (map_of p2 ''buttons'')
             then Inl TooManyButtons
             else
               (case (if truthy (map_of p2 ''assets'')
                      then find (\<lambda>(k, v). truthy (Some v) \<and> \<not> typeof_string (Some v))
                             (own_entries (the (map_of p2 ''assets'')))
                      else None) of
                  Some (k, v) \<Rightarrow> Inl (AssetNotString k)
                | None \<Rightarrow> Inr p2))"

text \<open>
  \<open>setActivity\<close> up to its \<open>await\<close>, and after it. \<open>pid\<close> is \<open>process.pid\<close>. An exception
  of \<open>processActivity\<close> rejects the promise of \<open>setActivity\<close> before anything is sent.
\<close>

definition setActivity_start ::
  "runtime \<Rightarrow> session \<Rightarrow> (string \<times> jsval) list \<Rightarrow> int \<Rightarrow> string
     \<Rightarrow> (error \<times> session) + (session \<times> nat \<times> (string \<times> jsval) list)" where
  "setActivity_start rt s activity pid nonce =
     (case processActivity s activity of
        Inl e \<Rightarrow> Inl (e, s)
      | Inr processedActivity \<Rightarrow>
         (let (s', r) = sendCommand rt s ''SET_ACTIVITY''
                          (JObj [(''pid'', JNum pid), (''activity'', JObj processedActivity)])
                          10000 nonce
          in Inr (s', r, processedActivity)))"

definition setActivity_resume ::
  "session \<Rightarrow> (string \<times> jsval) list \<Rightarrow> outcome \<Rightarrow> (error \<times> session) + session" where
  "setActivity_resume s processedActivity out =
     (case out of
        Resolved response \<Rightarrow>
          Inr (emit (s\<lparr>currentActivity := Some processedActivity\<rparr>)
                 (EvActivitySet processedActivity))
      | Rejected e \<Rightarrow> Inl (e, log s ErrorLevel (FailedToSetActivity (message_of e))))"

text \<open>\<open>clearActivity\<close>, before and after its \<open>await\<close>.\<close>

definition clearActivity_start :: "runtime \<Rightarrow> session \<Rightarrow> int \<Rightarrow> string \<Rightarrow> session \<times> nat" where
  "clearActivity_start rt s pid nonce =
     sendCommand rt s ''SET_ACTIVITY'' (JObj [(''pid'', JNum pid)]) 10000 nonce"

definition clearActivity_resume :: "session \<Rightarrow> outcome \<Rightarrow> (error \<times> session) + session" where
  "clearActivity_resume s out =
     (case out of
        Resolved response \<Rightarrow> Inr (emit (s\<lparr>currentActivity := None\<rparr>) EvActivityCleared)
      | Rejected e \<Rightarrow> Inl (e, s))"

text \<open>The handler of the socket's \<open>'error'\<close>.\<close>

definition on_error :: "session \<Rightarrow> string \<Rightarrow> session" where
  "on_error s text = emit (log s ErrorLevel (SocketError text)) (EvError (TransportError text))"

subsection \<open>Runs of the engine\<close>

text \<open>
  What can happen to a session, one handler at a time: a call of a method by the
  application, the part of an \<open>async\<close> method after its \<open>await\<close> (with what the awaited
  promise settled with), a frame handed to \<open>handleMessage\<close>, a command timer that fires,
  the socket closing or failing. The callback of the reconnect timer is \<open>connect\<close>,
  \<open>handshake\<close>, \<open>authenticate\<close> and \<open>setActivity\<close> in a row, each of them one of these.
  An exception a method throws goes to its caller and leaves the session as it is then.
  A flush that does not return is the end of the session's life: no handler runs after
  it. A run keeps the session from before it, which only adds runs.
\<close>

datatype action =
    Connect "nat option"
  | Handshake
  | Send int jsval
  | SendCommand string jsval nat string
  | Authenticate "string option" string
  | AuthenticateResume "string option" outcome
  | SetActivity "(string \<times> jsval) list" int string
  | SetActivityResume "(string \<times> jsval) list" outcome
  | ClearActivity int string
  | ClearActivityResume outcome
  | Frame nat bytes
  | Timeout nat
  | Close
  | SocketFails string
  | Disconnect

definition after :: "(error \<times> session) + session \<Rightarrow> session" where
  "after res = (case res of Inl (e, s) \<Rightarrow> s | Inr s \<Rightarrow> s)"

fun step :: "runtime \<Rightarrow> session \<Rightarrow> action \<Rightarrow> session" where
  "step rt s (Connect accepting) = after (connect s accepting)"
| "step rt s Handshake = after (handshake rt s)"
| "step rt s (Send opcode data) = after (send rt s opcode data)"
| "step rt s (SendCommand cmd args timeout nonce) = fst (sendCommand rt s cmd args timeout nonce)"
| "step rt s (Authenticate accessToken nonce) = fst (authenticate_start rt s accessToken nonce)"
| "step rt s (AuthenticateResume accessToken out) =
     (case authenticate_resume rt s accessToken out of None \<Rightarrow> s | Some res \<Rightarrow> after res)"
| "step rt s (SetActivity activity pid nonce) =
     (case setActivity_start rt s activity pid nonce of
        Inl (e, s') \<Rightarrow> s'
      | Inr (s', r, processedActivity) \<Rightarrow> s')"
| "step rt s (SetActivityResume processedActivity out) =
     after (setActivity_resume s processedActivity out)"
| "step rt s (ClearActivity pid nonce) = fst (clearActivity_start rt s pid nonce)"
| "step rt s (ClearActivityResume out) = after (clearActivity_resume s out)"
| "step rt s (Frame opcode payload) = handleMessage rt s opcode payload"
| "step rt s (Timeout r) = command_timeout s r"
| "step rt s Close = on_close s"
| "step rt s (SocketFails text) = on_error s text"
| "step rt s Disconnect = disconnect s"

definition run :: "runtime \<Rightarrow> session \<Rightarrow> action list \<Rightarrow> session" where
  "run rt s acts = foldl (step rt) s acts"

text \<open>
  The three ways the correlator settles a command: the response, the remote's error, the
  timeout. Any other rejection is an exception of \<open>send\<close> inside \<open>sendCommand\<close>.
\<close>

fun correlated :: "outcome \<Rightarrow> bool" where
  "correlated (Resolved response) = True"
| "correlated (Rejected (RemoteError m)) = True"
| "correlated (Rejected (CommandTimeout cmd)) = True"
| "correlated (Rejected e) = False"

text \<open>The rejections that come from an exception of \<open>send\<close>.\<close>

definition refused :: "outcome \<Rightarrow> bool" where
  "refused out =
     (out = Rejected NotConnected \<or> out = Rejected RangeError \<or> out = Rejected TypeError)"

definition firings :: "session \<Rightarrow> nat \<Rightarrow> outcome list" where
  "firings s r = map snd (filter (\<lambda>(r', out). r' = r \<and> correlated out) (settlements s))"

text \<open>A response whose \<open>evt\<close> is \<open>'ERROR'\<close> carries a \<open>data\<close> that \<open>.message\<close> can be read of.\<close>

definition error_has_data :: "jsval \<Rightarrow> bool" where
  "error_has_data message =
     (if get_prop (Some message) ''evt'' = Inr (Some (JStr ''ERROR''))
      then (case get_prop (Some message) ''data'' of
              Inr (Some d) \<Rightarrow> d \<noteq> JNull
            | _ \<Rightarrow> False)
      else True)"

fun plain :: "runtime \<Rightarrow> action \<Rightarrow> bool" where
  "plain rt (Frame opcode payload) =
     (case JSON_parse rt payload of None \<Rightarrow> True | Some message \<Rightarrow> error_has_data message)"
| "plain rt _ = True"

text \<open>
  What holds of the correlator after every handler: the keys of the map and of the timers
  are unique; the callback stored under a nonce belongs to a promise whose timer is armed
  and closes over that nonce; promises and timers in use were numbered by \<open>sendCommand\<close>;
  a promise whose timer is armed has seen none of the three firings; no promise has seen
  more than one.
\<close>

definition correlator_inv :: "session \<Rightarrow> bool" where
  "correlator_inv s =
     (distinct (map fst (pendingResponses s))
      \<and> distinct (map fst (timers s))
      \<and> (\<forall>n r. map_of (pendingResponses s) n = Some r \<longrightarrow>
            (\<exists>cmd. map_of (timers s) r = Some (n, cmd)))
      \<and> (\<forall>r. map_of (timers s) r \<noteq> None \<longrightarrow> r < next_id s)
      \<and> (\<forall>r out. (r, out) \<in> set (settlements s) \<longrightarrow> r < next_id s)
      \<and> (\<forall>r. map_of (timers s) r \<noteq> None \<longrightarrow> firings s r = [])
      \<and> (\<forall>r. length (firings s r) \<le> 1))"

text \<open>Every promise handed out is settled or still has its timer armed.\<close>

definition settled_or_armed :: "session \<Rightarrow> bool" where
  "settled_or_armed s =
     (\<forall>r < next_id s. promise_state s r \<noteq> None \<or> map_of (timers s) r \<noteq> None)"

subsection \<open>Frames on the wire\<close>

text \<open>The bytes \<open>send\<close> writes for an opcode and a payload that fit their header fields.\<close>

definition frame_of :: "nat \<Rightarrow> bytes \<Rightarrow> bytes" where
  "frame_of opcode payload = le_bytes opcode @ le_bytes (length payload) @ payload"

text \<open>
  The handler that records each frame as \<open>handleMessage\<close> first reads it: the opcode and
  \<open>JSON.parse\<close> of the payload.
\<close>

definition parsed :: "runtime \<Rightarrow> (nat \<times> jsval option) list \<Rightarrow> nat \<Rightarrow> bytes
    \<Rightarrow> (nat \<times> jsval option) list" where
  "parsed rt acc opcode payload = acc @ [(opcode, JSON_parse rt payload)]"

subsection \<open>A runtime for concrete traffic\<close>

text \<open>
  A runtime that knows the JSON text of the values in a table, and no other text:
  enough to run the engine on a given exchange.
\<close>

definition ascii :: "string \<Rightarrow> bytes" where
  "ascii cs = map (\<lambda>c. of_nat (of_char c)) cs"

definition table_runtime :: "(jsval \<times> string) list \<Rightarrow> runtime" where
  "table_runtime tbl =
     \<lparr> JSON_parse = (\<lambda>b. map_of (map (\<lambda>(v, t). (ascii t, v)) tbl) b),
       JSON_stringify = (\<lambda>v. case map_of tbl v of None \<Rightarrow> ascii ''null'' | Some t \<Rightarrow> ascii t),
       to_String = (\<lambda>v. case v of JStr cs \<Rightarrow> cs | _ \<Rightarrow> ''[object Object]'') \<rparr>"

subsection \<open>A session to run examples on\<close>

definition example_options :: options where
  "example_options = \<lparr>opt_clientId = Some ''42'', opt_debug = Some True,
     opt_autoReconnect = None, opt_reconnectDelay = Some 1000, opt_maxReconnectAttempts = None\<rparr>"

text \<open>The session after \<open>connect\<close>, whose first path accepted the socket.\<close>

definition connected_session :: session where
  "connected_session = after (connect (constructor example_options) (Some 0))"

text \<open>
  \<open>authenticate()\<close> called on a session that never connected: the \<open>AUTHORIZE\<close> command
  goes to the queue, and its timer fires 15 seconds later.
\<close>

definition offline_authorize :: session where
  "offline_authorize =
     command_timeout
       (fst (authenticate_start (table_runtime []) (constructor example_options) None ''n1'')) 0"

text \<open>The remote's answer to an \<open>AUTHORIZE\<close> for a client id it does not know.\<close>

definition authorize_error :: jsval where
  "authorize_error =
     JObj [(''cmd'', JStr ''AUTHORIZE''), (''nonce'', JStr ''n1''), (''evt'', JStr ''ERROR''),
           (''data'', JObj [(''code'', JNum 4000), (''message'', JStr ''Invalid Client ID'')])]"

definition authorize_error_text :: string where
  "authorize_error_text =
     ''{\"cmd\":\"AUTHORIZE\",\"nonce\":\"n1\",\"evt\":\"ERROR\",\"data\":{\"code\":4000,\"message\":\"Invalid Client ID\"}}''"

definition refused_authorize :: session where
  "refused_authorize =
     handleMessage (table_runtime [(authorize_error, authorize_error_text)])
       (fst (authenticate_start (table_runtime [(authorize_error, authorize_error_text)])
               connected_session None ''n1''))
       1 (ascii authorize_error_text)"

text \<open>The same options with auto-reconnect switched off.\<close>

definition manual_options :: options where
  "manual_options = example_options\<lparr>opt_autoReconnect := Some False\<rparr>"

text \<open>An \<open>ERROR\<close> response that carries no \<open>data\<close>.\<close>

definition bare_error :: jsval where
  "bare_error = JObj [(''nonce'', JStr ''n1''), (''evt'', JStr ''ERROR'')]"

definition bare_error_text :: string where
  "bare_error_text = ''{\"nonce\":\"n1\",\"evt\":\"ERROR\"}''"

section \<open>Logging and emitting leave the rest of the session alone\<close>

lemma log_fields [simp]:
  "clientId (log s l x) = clientId s"
  "debug (log s l x) = debug s"
  "autoReconnect (log s l x) = autoReconnect s"
  "reconnectDelay (log s l x) = reconnectDelay s"
  "maxReconnectAttempts (log s l x) = maxReconnectAttempts s"
  "socket (log s l x) = socket s"
  "connected (log s l x) = connected s"
  "authenticated (log s l x) = authenticated s"
  "reconnectAttempts (log s l x) = reconnectAttempts s"
  "currentActivity (log s l x) = currentActivity s"
  "messageQueue (log s l x) = messageQueue s"
  "pendingResponses (log s l x) = pendingResponses s"
  "heartbeatInterval (log s l x) = heartbeatInterval s"
  "next_id (log s l x) = next_id s"
  "timers (log s l x) = timers s"
  "settlements (log s l x) = settlements s"
  "reconnectTimers (log s l x) = reconnectTimers s"
  "wire (log s l x) = wire s"
  "events (log s l x) = events s"
  by (simp_all add: log_def)

lemma logs_log: "logs (log s l x) = logs s @ (if debug s then [(l, x)] else [])"
  by (simp add: log_def)

lemma emit_fields [simp]:
  "clientId (emit s e) = clientId s"
  "debug (emit s e) = debug s"
  "autoReconnect (emit s e) = autoReconnect s"
  "reconnectDelay (emit s e) = reconnectDelay s"
  "maxReconnectAttempts (emit s e) = maxReconnectAttempts s"
  "socket (emit s e) = socket s"
  "connected (emit s e) = connected s"
  "authenticated (emit s e) = authenticated s"
  "reconnectAttempts (emit s e) = reconnectAttempts s"
  "currentActivity (emit s e) = currentActivity s"
  "messageQueue (emit s e) = messageQueue s"
  "pendingResponses (emit s e) = pendingResponses s"
  "heartbeatInterval (emit s e) = heartbeatInterval s"
  "next_id (emit s e) = next_id s"
  "timers (emit s e) = timers s"
  "settlements (emit s e) = settlements s"
  "reconnectTimers (emit s e) = reconnectTimers s"
  "wire (emit s e) = wire s"
  "logs (emit s e) = logs s"
  "events (emit s e) = events s @ [e]"
  by (simp_all add: emit_def)

lemma settle_fields [simp]:
  "clientId (settle s r out) = clientId s"
  "debug (settle s r out) = debug s"
  "autoReconnect (settle s r out) = autoReconnect s"
  "reconnectDelay (settle s r out) = reconnectDelay s"
  "maxReconnectAttempts (settle s r out) = maxReconnectAttempts s"
  "socket (settle s r out) = socket s"
  "connected (settle s r out) = connected s"
  "authenticated (settle s r out) = authenticated s"
  "reconnectAttempts (settle s r out) = reconnectAttempts s"
  "currentActivity (settle s r out) = currentActivity s"
  "messageQueue (settle s r out) = messageQueue s"
  "pendingResponses (settle s r out) = pendingResponses s"
  "heartbeatInterval (settle s r out) = heartbeatInterval s"
  "next_id (settle s r out) = next_id s"
  "timers (settle s r out) = timers s"
  "reconnectTimers (settle s r out) = reconnectTimers s"
  "wire (settle s r out) = wire s"
  "logs (settle s r out) = logs s"
  "events (settle s r out) = events s"
  "settlements (settle s r out) = settlements s @ [(r, out)]"
  by (simp_all add: settle_def)

lemma clearHeartbeat_fields [simp]:
  "clientId (clearHeartbeat s) = clientId s"
  "debug (clearHeartbeat s) = debug s"
  "autoReconnect (clearHeartbeat s) = autoReconnect s"
  "reconnectDelay (clearHeartbeat s) = reconnectDelay s"
  "maxReconnectAttempts (clearHeartbeat s) = maxReconnectAttempts s"
  "socket (clearHeartbeat s) = socket s"
  "connected (clearHeartbeat s) = connected s"
  "authenticated (clearHeartbeat s) = authenticated s"
  "reconnectAttempts (clearHeartbeat s) = reconnectAttempts s"
  "currentActivity (clearHeartbeat s) = currentActivity s"
  "messageQueue (clearHeartbeat s) = messageQueue s"
  "pendingResponses (clearHeartbeat s) = pendingResponses s"
  "heartbeatInterval (clearHeartbeat s) = False"
  "next_id (clearHeartbeat s) = next_id s"
  "timers (clearHeartbeat s) = timers s"
  "settlements (clearHeartbeat s) = settlements s"
  "reconnectTimers (clearHeartbeat s) = reconnectTimers s"
  "wire (clearHeartbeat s) = wire s"
  "logs (clearHeartbeat s) = logs s"
  "events (clearHeartbeat s) = events s"
  by (simp_all add: clearHeartbeat_def)

section \<open>The frame codec\<close>

subsection \<open>The header round trip\<close>

lemma unat_byte: "unat (of_nat x :: byte) = x mod 256"
  by (simp add: unat_of_nat)

lemma le_value:
  fixes n :: nat
  assumes "n < 4294967296"
  shows "n mod 256 + 256 * (n div 256 mod 256) + 65536 * (n div 65536 mod 256)
         + 16777216 * (n div 16777216) = n"
proof -
  define a where "a = n div 256"
  define b where "b = a div 256"
  define c where "c = b div 256"
  have b_eq: "n div 65536 = b"
    using div_mult2_eq [of n 256 256] by (simp add: a_def b_def)
  have c_eq: "n div 16777216 = c"
    using div_mult2_eq [of n 65536 256] b_eq by (simp add: c_def)
  have n_split: "n = n mod 256 + 256 * a"
    by (simp add: a_def)
  have a_split: "a = a mod 256 + 256 * b"
    by (simp add: b_def)
  have b_split: "b = b mod 256 + 256 * c"
    by (simp add: c_def)
  have "n mod 256 + 256 * (a mod 256) + 65536 * (b mod 256) + 16777216 * c = n"
    using n_split a_split b_split by simp
  then show ?thesis
    by (simp add: a_def [symmetric] b_eq c_eq)
qed

lemma length_le_bytes [simp]: "length (le_bytes n) = 4"
  by (simp add: le_bytes_def)

lemma read_le_bytes:
  assumes "n < 4294967296"
  shows "readUInt32LE (le_bytes n @ rest) 0 = Inr n"
  using le_value [OF assms] assms
  by (simp add: readUInt32LE_def le_bytes_def unat_byte less_mult_imp_div_less)

lemma read_le_bytes4:
  assumes "n < 4294967296" "length pre = 4"
  shows "readUInt32LE (pre @ le_bytes n @ rest) 4 = Inr n"
  using le_value [OF assms(1)] assms
  by (simp add: readUInt32LE_def le_bytes_def unat_byte nth_append less_mult_imp_div_less)

lemma read_append:
  "off + 4 \<le> length a \<Longrightarrow> readUInt32LE (a @ b) off = readUInt32LE a off"
  by (simp add: readUInt32LE_def nth_append)

lemma read_in_range:
  "off + 4 \<le> length a \<Longrightarrow> \<exists>n. readUInt32LE a off = Inr n"
  by (simp add: readUInt32LE_def)

subsection \<open>The decoding loop\<close>

declare data_loop.simps [simp del]

lemma data_loop_short:
  "length buffer < 8 \<Longrightarrow> data_loop h s buffer = Inr (s, buffer)"
  by (subst data_loop.simps) simp

lemma data_loop_partial:
  "8 \<le> length buffer \<Longrightarrow> readUInt32LE buffer 4 = Inr len \<Longrightarrow> length buffer < 8 + len
   \<Longrightarrow> data_loop h s buffer = Inr (s, buffer)"
  using read_in_range [of 0 buffer]
  by (subst data_loop.simps) auto

lemma data_loop_frame:
  "8 \<le> length buffer \<Longrightarrow> readUInt32LE buffer 0 = Inr opcode \<Longrightarrow>
   readUInt32LE buffer 4 = Inr len \<Longrightarrow> 8 + len \<le> length buffer \<Longrightarrow>
   data_loop h s buffer
     = data_loop h (h s opcode (take len (drop 8 buffer))) (drop (8 + len) buffer)"
  by (subst data_loop.simps) simp

lemma data_loop_total: "\<exists>s' rest. data_loop h s buffer = Inr (s', rest)"
proof (induction h s buffer rule: data_loop.induct)
  case (1 h s buffer)
  show ?case
  proof (cases "8 \<le> length buffer")
    case False
    then show ?thesis by (simp add: data_loop_short)
  next
    case True
    then obtain opcode len where
      rd: "readUInt32LE buffer 0 = Inr opcode" "readUInt32LE buffer 4 = Inr len"
      using read_in_range [of 0 buffer] read_in_range [of 4 buffer] by auto
    show ?thesis
    proof (cases "length buffer < 8 + len")
      case True
      with \<open>8 \<le> length buffer\<close> rd show ?thesis by (simp add: data_loop_partial)
    next
      case False
      with True rd "1.IH" [of opcode len] show ?thesis
        by (simp add: data_loop_frame)
    qed
  qed
qed

lemma data_loop_append:
  "data_loop h s (a @ b)
     = (case data_loop h s a of Inl e \<Rightarrow> Inl e | Inr (s', rest) \<Rightarrow> data_loop h s' (rest @ b))"
proof (induction h s a rule: data_loop.induct)
  case (1 h s a)
  show ?case
  proof (cases "8 \<le> length a")
    case False
    then show ?thesis by (simp add: data_loop_short)
  next
    case True
    then obtain opcode len where
      rd: "readUInt32LE a 0 = Inr opcode" "readUInt32LE a 4 = Inr len"
      using read_in_range [of 0 a] read_in_range [of 4 a] by auto
    show ?thesis
    proof (cases "length a < 8 + len")
      case True
      with \<open>8 \<le> length a\<close> rd show ?thesis by (simp add: data_loop_partial)
    next
      case False
      have rd': "readUInt32LE (a @ b) 0 = Inr opcode" "readUInt32LE (a @ b) 4 = Inr len"
        using True rd by (simp_all add: read_append)
      have "data_loop h s (a @ b)
              = data_loop h (h s opcode (take len (drop 8 a))) (drop (8 + len) a @ b)"
        using True False rd' by (simp add: data_loop_frame)
      also have "\<dots> = (case data_loop h (h s opcode (take len (drop 8 a))) (drop (8 + len) a) of
                         Inl e \<Rightarrow> Inl e | Inr (s', rest) \<Rightarrow> data_loop h s' (rest @ b))"
        using "1.IH" [of opcode len] True False rd by simp
      also have "data_loop h (h s opcode (take len (drop 8 a))) (drop (8 + len) a)
                   = data_loop h s a"
        using True False rd by (simp add: data_loop_frame)
      finally show ?thesis .
    qed
  qed
qed

lemma remainder_kept:
  "data_loop h s buffer = Inr (s', rest) \<Longrightarrow> data_loop h' t rest = Inr (t, rest)"
proof (induction h s buffer rule: data_loop.induct)
  case (1 h s buffer)
  show ?case
  proof (cases "8 \<le> length buffer")
    case False
    with "1.prems" show ?thesis by (simp add: data_loop_short)
  next
    case True
    then obtain opcode len where
      rd: "readUInt32LE buffer 0 = Inr opcode" "readUInt32LE buffer 4 = Inr len"
      using read_in_range [of 0 buffer] read_in_range [of 4 buffer] by auto
    show ?thesis
    proof (cases "length buffer < 8 + len")
      case True
      with \<open>8 \<le> length buffer\<close> rd "1.prems" show ?thesis
        by (simp add: data_loop_partial)
    next
      case False
      with True rd "1.prems" "1.IH" [of opcode len] show ?thesis
        by (simp add: data_loop_frame)
    qed
  qed
qed

lemma feed_all_at_once:
  "data_loop h s buffer = Inr (s, buffer) \<Longrightarrow>
   feed h (s, buffer) chunks = data_loop h s (buffer @ concat chunks)"
proof (induction chunks arbitrary: s buffer)
  case Nil
  then show ?case by simp
next
  case (Cons chunk chunks)
  obtain s' rest where step: "data_loop h s (buffer @ chunk) = Inr (s', rest)"
    using data_loop_total [of h s "buffer @ chunk"] by auto
  have "data_loop h s' rest = Inr (s', rest)"
    using remainder_kept [OF step] .
  then have "feed h (s, buffer) (chunk # chunks) = data_loop h s' (rest @ concat chunks)"
    using step Cons.IH by (simp add: on_data_def)
  also have "\<dots> = data_loop h s ((buffer @ chunk) @ concat chunks)"
    using step data_loop_append [of h s "buffer @ chunk" "concat chunks"] by simp
  finally show ?case by simp
qed

lemma data_loop_frame_of:
  assumes "opcode < 4294967296" "length payload < 4294967296"
  shows "data_loop h s (frame_of opcode payload @ rest) = data_loop h (h s opcode payload) rest"
proof -
  let ?buf = "frame_of opcode payload @ rest"
  have r0: "readUInt32LE ?buf 0 = Inr opcode"
    using read_le_bytes [OF assms(1)] by (simp add: frame_of_def)
  have r4: "readUInt32LE ?buf 4 = Inr (length payload)"
    using read_le_bytes4 [OF assms(2), of "le_bytes opcode"] by (simp add: frame_of_def)
  have len: "length ?buf = 8 + length payload + length rest"
    by (simp add: frame_of_def)
  have "data_loop h s ?buf
          = data_loop h (h s opcode (take (length payload) (drop 8 ?buf)))
              (drop (8 + length payload) ?buf)"
    using r0 r4 len by (intro data_loop_frame) simp_all
  then show ?thesis
    by (simp add: frame_of_def)
qed

lemma foldl_collect:
  "foldl (\<lambda>t f. collect t (fst f) (snd f)) acc frames = acc @ frames"
  by (induction frames arbitrary: acc) (simp_all add: collect_def)

lemma data_loop_frames:
  assumes "\<forall>f \<in> set frames. fst f < 4294967296 \<and> length (snd f) < 4294967296"
  shows "data_loop h s (concat (map (\<lambda>f. frame_of (fst f) (snd f)) frames))
           = Inr (foldl (\<lambda>t f. h t (fst f) (snd f)) s frames, [])"
  using assms
proof (induction frames arbitrary: s)
  case Nil
  show ?case by (simp add: data_loop_short)
next
  case (Cons f frames)
  then show ?case
    by (simp add: data_loop_frame_of)
qed


lemma frame_bytes_frame_of:
  assumes "0 \<le> opcode" "opcode < 4294967296" "length (JSON_stringify rt data) < 4294967296"
  shows "frame_bytes rt opcode data = Inr (frame_of (nat opcode) (JSON_stringify rt data))"
  using assms by (simp add: frame_bytes_def writeUInt32LE_def frame_of_def Let_def)

text \<open>
  C1. For an opcode that is a uint32 and a value that \<open>JSON.parse\<close> reads back from its
  \<open>JSON.stringify\<close> text, \<open>send\<close> builds the 8-byte little-endian header of the opcode
  and the payload's byte length, followed by the payload, and the data handler, given
  exactly these bytes from an empty buffer, hands on the single frame of that opcode and
  that value and leaves an empty buffer. The payload is shorter than \<open>2^32\<close> bytes, as
  every text \<open>JSON.stringify\<close> can return is.
\<close>

theorem encode_decode_roundtrip:
  assumes "0 \<le> opcode" "opcode < 4294967296"
      and "JSON_parse rt (JSON_stringify rt data) = Some data"
      and "length (JSON_stringify rt data) < 4294967296"
  shows "\<exists>frame. frame_bytes rt opcode data = Inr frame
           \<and> on_data (parsed rt) ([], []) frame = Inr ([(nat opcode, Some data)], [])
           \<and> (\<forall>s. connected s \<and> socket s \<longrightarrow>
                 (\<exists>s'. send rt s opcode data = Inr s' \<and> wire s' = wire s @ [frame]))"
proof -
  let ?payload = "JSON_stringify rt data"
  let ?frame = "frame_of (nat opcode) ?payload"
  have enc: "frame_bytes rt opcode data = Inr ?frame"
    using assms by (simp add: frame_bytes_frame_of)
  have "data_loop (parsed rt) [] (?frame @ [])
          = data_loop (parsed rt) (parsed rt [] (nat opcode) ?payload) []"
    using assms by (intro data_loop_frame_of) simp_all
  then have dec: "on_data (parsed rt) ([], []) ?frame = Inr ([(nat opcode, Some data)], [])"
    using assms(3) by (simp add: on_data_def parsed_def data_loop_short)
  have "\<exists>s'. send rt s opcode data = Inr s' \<and> wire s' = wire s @ [?frame]"
    if "connected s \<and> socket s" for s
    using that enc by (simp add: send_def log_def)
  with enc dec show ?thesis
    by blast
qed

theorem encode_decode_roundtrip_witness:
  "on_data (parsed (table_runtime [(JObj [(''v'', JNum 1)], ''{\"v\":1}'')])) ([], [])
     [1, 0, 0, 0, 7, 0, 0, 0, 123, 34, 118, 34, 58, 49, 125]
   = Inr ([(1, Some (JObj [(''v'', JNum 1)]))], [])
   \<and> frame_bytes (table_runtime [(JObj [(''v'', JNum 1)], ''{\"v\":1}'')]) 1 (JObj [(''v'', JNum 1)])
       = Inr [1, 0, 0, 0, 7, 0, 0, 0, 123, 34, 118, 34, 58, 49, 125]"
  using encode_decode_roundtrip
    [of 1 "table_runtime [(JObj [(''v'', JNum 1)], ''{\"v\":1}'')]" "JObj [(''v'', JNum 1)]"]
  by (simp add: table_runtime_def ascii_def frame_bytes_def writeUInt32LE_def le_bytes_def)

text \<open>
  C2. For frames whose opcode and payload length fit their header fields and any cutting
  of their concatenated bytes into chunks, the chunks fed in order from an empty buffer
  give the same frames in the same order as all the bytes in one chunk do, to any frame
  handler; and a chunk that leaves the buffer with fewer than 8 bytes, or with fewer
  payload bytes than its header announces, consumes nothing: the state is untouched and the
  buffer is the old buffer followed by the chunk.
\<close>

theorem chunked_decode:
  fixes frames :: "(nat \<times> bytes) list"
  assumes "\<forall>f \<in> set frames. fst f < 4294967296 \<and> length (snd f) < 4294967296"
      and "concat chunks = concat (map (\<lambda>f. frame_of (fst f) (snd f)) frames)"
  shows "feed collect ([], []) chunks = Inr (frames, [])
       \<and> feed collect ([], []) chunks = on_data collect ([], []) (concat chunks)
       \<and> (\<forall>(h :: 's \<Rightarrow> nat \<Rightarrow> bytes \<Rightarrow> 's) s.
            feed h (s, []) chunks = Inr (foldl (\<lambda>t f. h t (fst f) (snd f)) s frames, []))
       \<and> (\<forall>(h :: 's \<Rightarrow> nat \<Rightarrow> bytes \<Rightarrow> 's) s buffer chunk.
            length (buffer @ chunk) < 8
            \<or> (\<exists>len. readUInt32LE (buffer @ chunk) 4 = Inr len \<and> length (buffer @ chunk) < 8 + len)
            \<longrightarrow> on_data h (s, buffer) chunk = Inr (s, buffer @ chunk))"
proof (intro conjI allI impI)
  have general: "feed h (s, []) chunks = Inr (foldl (\<lambda>t f. h t (fst f) (snd f)) s frames, [])"
    for h :: "'t \<Rightarrow> nat \<Rightarrow> bytes \<Rightarrow> 't" and s
  proof -
    have "feed h (s, []) chunks = data_loop h s ([] @ concat chunks)"
      by (intro feed_all_at_once) (simp add: data_loop_short)
    then show ?thesis
      using assms by (simp add: data_loop_frames)
  qed
  show "feed collect ([], []) chunks = Inr (frames, [])"
    using general [of collect "[]"] by (simp add: foldl_collect)
  show "feed h (s, []) chunks = Inr (foldl (\<lambda>t f. h t (fst f) (snd f)) s frames, [])"
    for h :: "'s \<Rightarrow> nat \<Rightarrow> bytes \<Rightarrow> 's" and s
    by (rule general)
  have "feed collect ([], []) chunks = data_loop collect [] ([] @ concat chunks)"
    by (intro feed_all_at_once) (simp add: data_loop_short)
  then show "feed collect ([], []) chunks = on_data collect ([], []) (concat chunks)"
    by (simp add: on_data_def)
  show "on_data h (s, buffer) chunk = Inr (s, buffer @ chunk)"
    if "length (buffer @ chunk) < 8
        \<or> (\<exists>len. readUInt32LE (buffer @ chunk) 4 = Inr len \<and> length (buffer @ chunk) < 8 + len)"
    for h :: "'s \<Rightarrow> nat \<Rightarrow> bytes \<Rightarrow> 's" and s buffer chunk
  proof (cases "length (buffer @ chunk) < 8")
    case True
    then show ?thesis
      by (simp add: on_data_def data_loop_short)
  next
    case False
    with that obtain len where
      "readUInt32LE (buffer @ chunk) 4 = Inr len" "length (buffer @ chunk) < 8 + len"
      by blast
    with False show ?thesis
      unfolding on_data_def fst_conv snd_conv by (intro data_loop_partial) simp_all
  qed
qed

theorem chunked_decode_witness:
  "feed collect ([], []) [[1, 0, 0], [0, 2, 0, 0, 0, 65], [66, 0, 0, 0, 0, 0, 0], [0, 0]]
     = Inr ([(1, [65, 66]), (0, [])], [])
   \<and> on_data collect ([], [1, 0, 0]) [0, 2, 0, 0, 0, 65] = Inr ([], [1, 0, 0, 0, 2, 0, 0, 0, 65])"
proof -
  have wf: "\<forall>f \<in> set [(1, [65, 66 :: byte]), (0 :: nat, [])].
              fst f < 4294967296 \<and> length (snd f) < 4294967296"
    by simp
  have split: "concat [[1, 0, 0], [0, 2, 0, 0, 0, 65], [66, 0, 0, 0, 0, 0, 0], [0, 0 :: byte]]
                 = concat (map (\<lambda>f. frame_of (fst f) (snd f)) [(1, [65, 66]), (0, [])])"
    by (simp add: frame_of_def le_bytes_def)
  have rd: "readUInt32LE ([1, 0, 0] @ [0, 2, 0, 0, 0, 65]) 4 = Inr 2"
    by (simp add: readUInt32LE_def)
  note decoded = chunked_decode [where ?'s = "(nat \<times> bytes) list", OF wf split]
  have "on_data collect ([], [1, 0, 0]) [0, 2, 0, 0, 0, 65]
          = Inr ([], [1, 0, 0] @ [0, 2, 0, 0, 0, 65])"
    using decoded [THEN conjunct2, THEN conjunct2, THEN conjunct2, rule_format,
        of "[1, 0, 0]" "[0, 2, 0, 0, 0, 65]" collect "[]"] rd
    by simp
  with decoded [THEN conjunct1] show ?thesis
    by simp
qed

section \<open>send and sendCommand, field by field\<close>

lemma send_connected:
  "connected s \<Longrightarrow> socket s \<Longrightarrow> frame_bytes rt opcode data = Inr frame \<Longrightarrow>
   send rt s opcode data = Inr (log (s\<lparr>wire := wire s @ [frame]\<rparr>) Info (Sent data))"
  by (simp add: send_def)

lemma send_queued:
  "\<not> connected s \<Longrightarrow> autoReconnect s \<Longrightarrow>
   send rt s opcode data = Inr (s\<lparr>messageQueue := messageQueue s @ [(opcode, data)]\<rparr>)"
  by (simp add: send_def)

lemma send_Inr_fields:
  assumes "send rt s opcode data = Inr s'"
  shows "pendingResponses s' = pendingResponses s" "timers s' = timers s"
    "settlements s' = settlements s" "next_id s' = next_id s" "events s' = events s"
    "currentActivity s' = currentActivity s" "connected s' = connected s"
    "authenticated s' = authenticated s" "autoReconnect s' = autoReconnect s"
    "socket s' = socket s" "debug s' = debug s" "clientId s' = clientId s"
  using assms
  by (auto simp: send_def split: if_splits sum.splits)

lemma send_Inl:
  assumes "send rt s opcode data = Inl (e, s')"
  shows "s' = s" "\<not> correlated (Rejected e)"
  using assms
  by (auto simp: send_def frame_bytes_def writeUInt32LE_def Let_def split: if_splits sum.splits)

lemma sendCommand_fields:
  "snd (sendCommand rt s cmd args t nonce) = next_id s"
  "next_id (fst (sendCommand rt s cmd args t nonce)) = Suc (next_id s)"
  "timers (fst (sendCommand rt s cmd args t nonce)) = AList.update (next_id s) (nonce, cmd) (timers s)"
  "pendingResponses (fst (sendCommand rt s cmd args t nonce))
     = AList.update nonce (next_id s) (pendingResponses s)"
  "events (fst (sendCommand rt s cmd args t nonce)) = events s"
  "currentActivity (fst (sendCommand rt s cmd args t nonce)) = currentActivity s"
  "connected (fst (sendCommand rt s cmd args t nonce)) = connected s"
  "authenticated (fst (sendCommand rt s cmd args t nonce)) = authenticated s"
  "autoReconnect (fst (sendCommand rt s cmd args t nonce)) = autoReconnect s"
  "socket (fst (sendCommand rt s cmd args t nonce)) = socket s"
  "debug (fst (sendCommand rt s cmd args t nonce)) = debug s"
  "clientId (fst (sendCommand rt s cmd args t nonce)) = clientId s"
  by (auto simp: sendCommand_def Let_def split: sum.splits prod.splits
      dest: send_Inr_fields send_Inl(1))

lemma sendCommand_settlements:
  "settlements (fst (sendCommand rt s cmd args t nonce))
     = settlements s
       @ (if connected s then
            (case frame_bytes rt 1
                    (JObj [(''cmd'', JStr cmd), (''nonce'', JStr nonce), (''args'', args)]) of
               Inl e \<Rightarrow> [(next_id s, Rejected e)]
             | Inr frame \<Rightarrow> if socket s then [] else [(next_id s, Rejected TypeError)])
          else if autoReconnect s then [] else [(next_id s, Rejected NotConnected)])"
  by (simp add: sendCommand_def Let_def send_def split: sum.splits)

lemma connected_session_fields:
  "connected connected_session" "socket connected_session" "autoReconnect connected_session"
  "pendingResponses connected_session = []" "timers connected_session = []"
  "settlements connected_session = []" "next_id connected_session = 0"
  "messageQueue connected_session = []" "events connected_session = [EvConnect]"
  "debug connected_session" "clientId connected_session = Some ''42''"
  "wire connected_session = []" "authenticated connected_session = False"
  "currentActivity connected_session = None"
  by (simp_all add: connected_session_def connect_def constructor_def example_options_def
      after_def Let_def)

lemma null_runtime_frame:
  "frame_bytes (table_runtime []) 1 data = Inr (frame_of 1 (ascii ''null''))"
  using frame_bytes_frame_of [of 1 "table_runtime []" data]
  by (simp add: table_runtime_def ascii_def)

section \<open>Reconnection\<close>

lemma scheduleReconnect_fields:
  "reconnectAttempts (scheduleReconnect s) = reconnectAttempts s + 1"
  "reconnectTimers (scheduleReconnect s)
     = reconnectTimers s @ [min (reconnectDelay s * 2 ^ reconnectAttempts s) 30000]"
  "reconnectDelay (scheduleReconnect s) = reconnectDelay s"
  "maxReconnectAttempts (scheduleReconnect s) = maxReconnectAttempts s"
  "autoReconnect (scheduleReconnect s) = autoReconnect s"
  by (simp_all add: scheduleReconnect_def Let_def)

lemma on_close_reconnect:
  assumes "autoReconnect s" "int (reconnectAttempts s) < maxReconnectAttempts s"
  shows "reconnectAttempts (on_close s) = reconnectAttempts s + 1"
    and "reconnectTimers (on_close s)
           = reconnectTimers s @ [min (reconnectDelay s * 2 ^ reconnectAttempts s) 30000]"
    and "reconnectDelay (on_close s) = reconnectDelay s"
    and "maxReconnectAttempts (on_close s) = maxReconnectAttempts s"
    and "autoReconnect (on_close s)"
  using assms by (simp_all add: on_close_def Let_def scheduleReconnect_fields)

text \<open>
  C5. \<open>scheduleReconnect\<close> increments \<open>reconnectAttempts\<close> first and hands \<open>setTimeout\<close> the
  delay \<open>min(reconnectDelay * 2^(reconnectAttempts - 1), 30000)\<close> computed from the
  incremented counter; a session constructed with \<open>reconnectDelay = 1000\<close> whose socket
  closes six times in a row schedules the delays 1000, 2000, 4000, 8000, 16000, 30000.
\<close>

theorem reconnect_delay:
  "reconnectAttempts (scheduleReconnect s) = reconnectAttempts s + 1
   \<and> reconnectTimers (scheduleReconnect s)
       = reconnectTimers s
         @ [min (reconnectDelay s * 2 ^ (reconnectAttempts (scheduleReconnect s) - 1)) 30000]
   \<and> reconnectTimers
        (run rt (constructor \<lparr>opt_clientId = cid, opt_debug = dbg, opt_autoReconnect = None,
                               opt_reconnectDelay = Some 1000, opt_maxReconnectAttempts = None\<rparr>)
           [Close, Close, Close, Close, Close, Close])
       = [1000, 2000, 4000, 8000, 16000, 30000]"
proof (intro conjI)
  show "reconnectAttempts (scheduleReconnect s) = reconnectAttempts s + 1"
    by (simp add: scheduleReconnect_fields)
  show "reconnectTimers (scheduleReconnect s)
       = reconnectTimers s
         @ [min (reconnectDelay s * 2 ^ (reconnectAttempts (scheduleReconnect s) - 1)) 30000]"
    by (simp add: scheduleReconnect_fields)
  define s0 where "s0 = constructor \<lparr>opt_clientId = cid, opt_debug = dbg,
    opt_autoReconnect = None, opt_reconnectDelay = Some 1000, opt_maxReconnectAttempts = None\<rparr>"
  define s1 where "s1 = on_close s0"
  define s2 where "s2 = on_close s1"
  define s3 where "s3 = on_close s2"
  define s4 where "s4 = on_close s3"
  define s5 where "s5 = on_close s4"
  have c0: "autoReconnect s0" "maxReconnectAttempts s0 = 10" "reconnectDelay s0 = 1000"
    "reconnectAttempts s0 = 0" "reconnectTimers s0 = []"
    by (simp_all add: s0_def constructor_def)
  have c1: "autoReconnect s1" "maxReconnectAttempts s1 = 10" "reconnectDelay s1 = 1000"
    "reconnectAttempts s1 = 1" "reconnectTimers s1 = [1000]"
    unfolding s1_def using c0 by (simp_all add: on_close_reconnect)
  have c2: "autoReconnect s2" "maxReconnectAttempts s2 = 10" "reconnectDelay s2 = 1000"
    "reconnectAttempts s2 = 2" "reconnectTimers s2 = [1000, 2000]"
    unfolding s2_def using c1 by (simp_all add: on_close_reconnect)
  have c3: "autoReconnect s3" "maxReconnectAttempts s3 = 10" "reconnectDelay s3 = 1000"
    "reconnectAttempts s3 = 3" "reconnectTimers s3 = [1000, 2000, 4000]"
    unfolding s3_def using c2 by (simp_all add: on_close_reconnect)
  have c4: "autoReconnect s4" "maxReconnectAttempts s4 = 10" "reconnectDelay s4 = 1000"
    "reconnectAttempts s4 = 4" "reconnectTimers s4 = [1000, 2000, 4000, 8000]"
    unfolding s4_def using c3 by (simp_all add: on_close_reconnect)
  have c5: "autoReconnect s5" "maxReconnectAttempts s5 = 10" "reconnectDelay s5 = 1000"
    "reconnectAttempts s5 = 5" "reconnectTimers s5 = [1000, 2000, 4000, 8000, 16000]"
    unfolding s5_def using c4 by (simp_all add: on_close_reconnect)
  have "reconnectTimers (on_close s5) = [1000, 2000, 4000, 8000, 16000, 30000]"
    using c5 by (simp add: on_close_reconnect)
  then show "reconnectTimers
        (run rt (constructor \<lparr>opt_clientId = cid, opt_debug = dbg, opt_autoReconnect = None,
                               opt_reconnectDelay = Some 1000, opt_maxReconnectAttempts = None\<rparr>)
           [Close, Close, Close, Close, Close, Close])
       = [1000, 2000, 4000, 8000, 16000, 30000]"
    by (simp add: run_def s0_def s1_def s2_def s3_def s4_def s5_def)
qed

section \<open>Inbound frames\<close>

lemma handleMessage_unparsable:
  "JSON_parse rt payload = None \<Longrightarrow>
   handleMessage rt s opcode payload = log s ErrorLevel (FailedToParse SyntaxError)"
  by (simp add: handleMessage_def handleMessage_try_def)

text \<open>
  C9, as the code has it. A frame whose payload \<open>JSON.parse\<close> rejects raises no event at
  all: \<open>handleMessage\<close> catches the exception and writes one log line (when \<open>debug\<close> is
  set), the session is otherwise as before, the data handler does not throw, and the frames
  behind the bad one in the stream are handled as if it had not been there.
\<close>

theorem malformed_payload_logged:
  assumes "JSON_parse rt payload = None"
      and "opcode < 4294967296" "length payload < 4294967296"
  shows "handleMessage rt s opcode payload = log s ErrorLevel (FailedToParse SyntaxError)
       \<and> events (handleMessage rt s opcode payload) = events s
       \<and> on_data (handleMessage rt) (s, []) (frame_of opcode payload @ rest)
           = on_data (handleMessage rt) (log s ErrorLevel (FailedToParse SyntaxError), []) rest
       \<and> (\<exists>s' buffer'. on_data (handleMessage rt) (s, []) (frame_of opcode payload @ rest)
                          = Inr (s', buffer'))"
proof (intro conjI)
  show dropped: "handleMessage rt s opcode payload = log s ErrorLevel (FailedToParse SyntaxError)"
    using assms(1) by (rule handleMessage_unparsable)
  then show "events (handleMessage rt s opcode payload) = events s"
    by simp
  show "on_data (handleMessage rt) (s, []) (frame_of opcode payload @ rest)
           = on_data (handleMessage rt) (log s ErrorLevel (FailedToParse SyntaxError), []) rest"
    using assms(2,3) dropped by (simp add: on_data_def data_loop_frame_of)
  show "\<exists>s' buffer'. on_data (handleMessage rt) (s, []) (frame_of opcode payload @ rest)
                          = Inr (s', buffer')"
    unfolding on_data_def by (rule data_loop_total)
qed

theorem malformed_payload_logged_witness:
  "handleMessage (table_runtime []) (constructor \<lparr>opt_clientId = Some ''1'', opt_debug = Some True,
       opt_autoReconnect = None, opt_reconnectDelay = None, opt_maxReconnectAttempts = None\<rparr>)
     1 [123]
   = log (constructor \<lparr>opt_clientId = Some ''1'', opt_debug = Some True,
       opt_autoReconnect = None, opt_reconnectDelay = None, opt_maxReconnectAttempts = None\<rparr>)
       ErrorLevel (FailedToParse SyntaxError)"
  using malformed_payload_logged [of "table_runtime []" "[123]" 1]
  by (simp add: table_runtime_def)

text \<open>
  C9 as stated fails: with no JSON text the runtime accepts, the frame with payload
  \<open>{\<close> leaves the list of emitted events empty. No error event reaches the consumer.
\<close>

theorem malformed_payload_no_error_event:
  "JSON_parse (table_runtime []) [123] = None
   \<and> events (handleMessage (table_runtime [])
        (constructor \<lparr>opt_clientId = Some ''1'', opt_debug = Some True,
           opt_autoReconnect = None, opt_reconnectDelay = None, opt_maxReconnectAttempts = None\<rparr>)
        1 [123]) = []"
  by (simp add: handleMessage_unparsable table_runtime_def constructor_def)

section \<open>disconnect\<close>

lemma disconnect_fields:
  "pendingResponses (disconnect s) = []"
  "messageQueue (disconnect s) = []"
  "connected (disconnect s) = False"
  "authenticated (disconnect s) = False"
  "autoReconnect (disconnect s) = False"
  "socket (disconnect s) = False"
  "heartbeatInterval (disconnect s) = False"
  "settlements (disconnect s) = settlements s"
  "timers (disconnect s) = timers s"
  "next_id (disconnect s) = next_id s"
  "events (disconnect s) = events s @ [EvDisconnect]"
  "wire (disconnect s) = wire s"
  "currentActivity (disconnect s) = currentActivity s"
  by (simp_all add: disconnect_def Let_def)

lemma command_timeout_armed:
  "map_of (timers s) r = Some (nonce, cmd) \<Longrightarrow>
   settlements (command_timeout s r) = settlements s @ [(r, Rejected (CommandTimeout cmd))]"
  by (simp add: command_timeout_def)

text \<open>
  C4, as the code has it. \<open>disconnect\<close> empties \<open>pendingResponses\<close> without calling any
  of the callbacks in it: no promise is settled by it. The command timers stay armed, and
  each of them, when it fires afterwards, rejects its request with the time-out error.
  The queue is emptied, \<open>connected\<close>, \<open>authenticated\<close> and \<open>autoReconnect\<close> are false
  and one disconnect notification is emitted.
\<close>

theorem disconnect_drops_pending:
  "pendingResponses (disconnect s) = []
   \<and> settlements (disconnect s) = settlements s
   \<and> timers (disconnect s) = timers s
   \<and> (\<forall>r nonce cmd. map_of (timers s) r = Some (nonce, cmd) \<longrightarrow>
         settlements (command_timeout (disconnect s) r)
           = settlements s @ [(r, Rejected (CommandTimeout cmd))])
   \<and> messageQueue (disconnect s) = []
   \<and> \<not> connected (disconnect s) \<and> \<not> authenticated (disconnect s)
   \<and> \<not> autoReconnect (disconnect s)
   \<and> events (disconnect s) = events s @ [EvDisconnect]"
  by (simp add: disconnect_fields command_timeout_armed)

theorem disconnect_drops_pending_witness:
  "settlements (command_timeout (disconnect (fst (sendCommand (table_runtime []) connected_session
      ''GET_USER'' (JObj []) 10000 ''n1''))) 0) = [(0, Rejected (CommandTimeout ''GET_USER''))]"
  using disconnect_drops_pending [of "fst (sendCommand (table_runtime []) connected_session
      ''GET_USER'' (JObj []) 10000 ''n1'')"]
  by (simp add: sendCommand_fields sendCommand_settlements connected_session_fields
      null_runtime_frame)

text \<open>
  C4 as stated fails: a \<open>GET_USER\<close> command is pending on a connected session; after
  \<open>disconnect\<close> its promise is as unsettled as before.
\<close>

theorem disconnect_rejects_nothing:
  "pendingResponses (fst (sendCommand (table_runtime []) connected_session
      ''GET_USER'' (JObj []) 10000 ''n1'')) = [(''n1'', 0)]
   \<and> promise_state (fst (sendCommand (table_runtime []) connected_session
      ''GET_USER'' (JObj []) 10000 ''n1'')) 0 = None
   \<and> promise_state (disconnect (fst (sendCommand (table_runtime []) connected_session
      ''GET_USER'' (JObj []) 10000 ''n1''))) 0 = None"
  by (simp add: promise_state_def disconnect_fields sendCommand_fields sendCommand_settlements
      connected_session_fields null_runtime_frame)

section \<open>The outbound queue\<close>

lemma processQueue_empty: "messageQueue s = [] \<Longrightarrow> processQueue rt s = Some (Inr s)"
  by (subst processQueue.simps) simp

lemma processQueue_step:
  "messageQueue s = entry # rest \<Longrightarrow>
   processQueue rt s =
     (case send rt (s\<lparr>messageQueue := rest\<rparr>) (fst entry) (snd entry) of
        Inl x \<Rightarrow> Some (Inl x)
      | Inr s' \<Rightarrow> processQueue rt s')"
  by (subst processQueue.simps) simp

lemma processQueue_returns:
  "processQueue rt s = Some y \<Longrightarrow> connected s \<or> \<not> autoReconnect s \<or> messageQueue s = []"
proof (rule processQueue.raw_induct
    [where P = "\<lambda>rt s y. connected s \<or> \<not> autoReconnect s \<or> messageQueue s = []"])
  fix f and rt :: runtime and s :: session and y :: "(error \<times> session) + session"
  assume IH: "\<And>rt s y. f rt s = Some y \<Longrightarrow>
                connected s \<or> \<not> autoReconnect s \<or> messageQueue s = []"
    and body: "(case messageQueue s of
                  [] \<Rightarrow> Some (Inr s)
                | entry # rest \<Rightarrow>
                   (case send rt (s\<lparr>messageQueue := rest\<rparr>) (fst entry) (snd entry) of
                      Inl x \<Rightarrow> Some (Inl x)
                    | Inr s' \<Rightarrow> f rt s')) = Some y"
  show "connected s \<or> \<not> autoReconnect s \<or> messageQueue s = []"
  proof (rule ccontr)
    assume "\<not> (connected s \<or> \<not> autoReconnect s \<or> messageQueue s = [])"
    then have off: "\<not> connected s" "autoReconnect s" and "messageQueue s \<noteq> []"
      by simp_all
    then obtain entry rest where q: "messageQueue s = entry # rest"
      by (cases "messageQueue s") simp_all
    let ?s1 = "s\<lparr>messageQueue := rest\<rparr>"
    let ?s2 = "?s1\<lparr>messageQueue := messageQueue ?s1 @ [(fst entry, snd entry)]\<rparr>"
    have "send rt ?s1 (fst entry) (snd entry) = Inr ?s2"
      using off by (intro send_queued) simp_all
    with body q have again: "f rt ?s2 = Some y"
      by simp
    have "connected ?s2 \<or> \<not> autoReconnect ?s2 \<or> messageQueue ?s2 = []"
      using again by (rule IH)
    with off show False
      by simp
  qed
qed

lemma processQueue_diverges:
  assumes "\<not> connected s" "autoReconnect s" "messageQueue s \<noteq> []"
  shows "processQueue rt s = None"
proof (cases "processQueue rt s")
  case None
  then show ?thesis .
next
  case (Some y)
  from processQueue_returns [OF this] assms show ?thesis
    by simp
qed

lemma processQueue_flushes:
  assumes "connected s" "socket s"
      and "\<forall>m \<in> set (messageQueue s).
             0 \<le> fst m \<and> fst m < 4294967296 \<and> length (JSON_stringify rt (snd m)) < 4294967296"
  shows "\<exists>s'. processQueue rt s = Some (Inr s')
            \<and> messageQueue s' = []
            \<and> wire s' = wire s @ map (\<lambda>m. frame_of (nat (fst m)) (JSON_stringify rt (snd m)))
                                   (messageQueue s)
            \<and> logs s' = logs s @ (if debug s then map (\<lambda>m. (Info, Sent (snd m))) (messageQueue s)
                                   else [])
            \<and> connected s' \<and> socket s'
            \<and> authenticated s' = authenticated s \<and> events s' = events s
            \<and> pendingResponses s' = pendingResponses s \<and> timers s' = timers s
            \<and> settlements s' = settlements s \<and> currentActivity s' = currentActivity s"
  using assms
proof (induction "messageQueue s" arbitrary: s)
  case Nil
  then show ?case
    by (simp add: processQueue_empty)
next
  case (Cons entry rest)
  let ?frame = "frame_of (nat (fst entry)) (JSON_stringify rt (snd entry))"
  let ?s1 = "s\<lparr>messageQueue := rest\<rparr>"
  let ?s2 = "log (?s1\<lparr>wire := wire ?s1 @ [?frame]\<rparr>) Info (Sent (snd entry))"
  have q: "messageQueue s = entry # rest"
    using Cons.hyps(2) by simp
  have ok: "0 \<le> fst entry" "fst entry < 4294967296"
    "length (JSON_stringify rt (snd entry)) < 4294967296"
    using Cons.prems(3) q by simp_all
  have "frame_bytes rt (fst entry) (snd entry) = Inr ?frame"
    using ok by (rule frame_bytes_frame_of)
  then have sent: "send rt ?s1 (fst entry) (snd entry) = Inr ?s2"
    using Cons.prems(1,2) by (intro send_connected) simp_all
  have step: "processQueue rt s = processQueue rt ?s2"
    using q sent by (simp add: processQueue_step)
  have "rest = messageQueue ?s2"
    by simp
  moreover have "connected ?s2" "socket ?s2"
    using Cons.prems(1,2) by simp_all
  moreover have "\<forall>m \<in> set (messageQueue ?s2).
             0 \<le> fst m \<and> fst m < 4294967296 \<and> length (JSON_stringify rt (snd m)) < 4294967296"
    using Cons.prems(3) q by simp
  ultimately obtain s' where
    "processQueue rt ?s2 = Some (Inr s')" "messageQueue s' = []"
    "wire s' = wire ?s2 @ map (\<lambda>m. frame_of (nat (fst m)) (JSON_stringify rt (snd m)))
                                   (messageQueue ?s2)"
    "logs s' = logs ?s2 @ (if debug ?s2 then map (\<lambda>m. (Info, Sent (snd m))) (messageQueue ?s2)
                                   else [])"
    "connected s'" "socket s'" "authenticated s' = authenticated ?s2" "events s' = events ?s2"
    "pendingResponses s' = pendingResponses ?s2" "timers s' = timers ?s2"
    "settlements s' = settlements ?s2" "currentActivity s' = currentActivity ?s2"
    using Cons.hyps(1) [of ?s2] by blast
  then show ?case
    using step q by (simp add: logs_log)
qed

lemma authenticate_finish_flushes:
  assumes "connected s" "socket s"
      and "\<forall>m \<in> set (messageQueue s).
             0 \<le> fst m \<and> fst m < 4294967296 \<and> length (JSON_stringify rt (snd m)) < 4294967296"
  shows "\<exists>s'. authenticate_finish rt s = Some (Inr s')
            \<and> authenticated s' \<and> events s' = events s @ [EvAuthenticated]
            \<and> messageQueue s' = []
            \<and> wire s' = wire s @ map (\<lambda>m. frame_of (nat (fst m)) (JSON_stringify rt (snd m)))
                                   (messageQueue s)
            \<and> logs s' = logs s @ (if debug s then map (\<lambda>m. (Info, Sent (snd m))) (messageQueue s)
                                   else [])"
proof -
  let ?s1 = "emit (s\<lparr>authenticated := True\<rparr>) EvAuthenticated"
  have "connected ?s1" "socket ?s1"
    "\<forall>m \<in> set (messageQueue ?s1).
       0 \<le> fst m \<and> fst m < 4294967296 \<and> length (JSON_stringify rt (snd m)) < 4294967296"
    using assms by simp_all
  from processQueue_flushes [OF this] show ?thesis
    by (auto simp: authenticate_finish_def)
qed

lemma queued_in_order:
  assumes "\<not> connected s" "autoReconnect s"
  shows "messageQueue (run rt s (map (\<lambda>m. Send (fst m) (snd m)) msgs)) = messageQueue s @ msgs
       \<and> \<not> connected (run rt s (map (\<lambda>m. Send (fst m) (snd m)) msgs))
       \<and> wire (run rt s (map (\<lambda>m. Send (fst m) (snd m)) msgs)) = wire s"
  using assms
proof (induction msgs arbitrary: s)
  case Nil
  then show ?case by (simp add: run_def)
next
  case (Cons m msgs)
  let ?s1 = "s\<lparr>messageQueue := messageQueue s @ [(fst m, snd m)]\<rparr>"
  have "step rt s (Send (fst m) (snd m)) = ?s1"
    using Cons.prems by (simp add: send_queued after_def)
  moreover have "\<not> connected ?s1" "autoReconnect ?s1"
    using Cons.prems by simp_all
  ultimately show ?case
    using Cons.IH [of ?s1] by (simp add: run_def)
qed

text \<open>
  C6. Messages sent while the session is disconnected (auto-reconnect on) are appended to
  the queue in the order submitted and nothing is written. When \<open>authenticate\<close> completes
  on a session whose transport is up, it sets \<open>authenticated\<close>, emits the notification
  and flushes: the queue ends empty and its entries have been written to the socket, one
  frame each, in exactly the order of the queue. The entries are ones \<open>send\<close> can frame
  (a uint32 opcode, a payload under \<open>2^32\<close> bytes).
\<close>

theorem queue_flushed_in_order:
  assumes "\<forall>m \<in> set (messageQueue s).
             0 \<le> fst m \<and> fst m < 4294967296 \<and> length (JSON_stringify rt (snd m)) < 4294967296"
      and "connected s" "socket s"
  shows "(\<forall>(t :: session) msgs. \<not> connected t \<and> autoReconnect t \<longrightarrow>
            messageQueue (run rt t (map (\<lambda>m. Send (fst m) (snd m)) msgs)) = messageQueue t @ msgs
            \<and> wire (run rt t (map (\<lambda>m. Send (fst m) (snd m)) msgs)) = wire t)
       \<and> (\<exists>s'. authenticate_resume rt s accessToken (Resolved response) = Some (Inr s')
             \<and> authenticated s' \<and> events s' = events s @ [EvAuthenticated]
             \<and> messageQueue s' = []
             \<and> wire s' = wire s @ map (\<lambda>m. frame_of (nat (fst m)) (JSON_stringify rt (snd m)))
                                    (messageQueue s))"
proof (intro conjI allI impI)
  fix t :: session and msgs
  assume "\<not> connected t \<and> autoReconnect t"
  then show "messageQueue (run rt t (map (\<lambda>m. Send (fst m) (snd m)) msgs)) = messageQueue t @ msgs"
    and "wire (run rt t (map (\<lambda>m. Send (fst m) (snd m)) msgs)) = wire t"
    using queued_in_order [of t rt msgs] by simp_all
next
  show "\<exists>s'. authenticate_resume rt s accessToken (Resolved response) = Some (Inr s')
             \<and> authenticated s' \<and> events s' = events s @ [EvAuthenticated]
             \<and> messageQueue s' = []
             \<and> wire s' = wire s @ map (\<lambda>m. frame_of (nat (fst m)) (JSON_stringify rt (snd m)))
                                    (messageQueue s)"
  proof (cases "no_token accessToken")
    case True
    let ?s1 = "log s Info AuthorizationSuccessful"
    have "connected ?s1" "socket ?s1"
      "\<forall>m \<in> set (messageQueue ?s1).
         0 \<le> fst m \<and> fst m < 4294967296 \<and> length (JSON_stringify rt (snd m)) < 4294967296"
      using assms by simp_all
    from authenticate_finish_flushes [OF this] True show ?thesis
      by (auto simp: authenticate_resume_def)
  next
    case False
    from authenticate_finish_flushes [OF assms(2,3,1)] False show ?thesis
      by (auto simp: authenticate_resume_def)
  qed
qed


lemma constructor_fields:
  "clientId (constructor opts) = opt_clientId opts"
  "autoReconnect (constructor opts) = (opt_autoReconnect opts \<noteq> Some False)"
  "socket (constructor opts) = False"
  "connected (constructor opts) = False"
  "authenticated (constructor opts) = False"
  "reconnectAttempts (constructor opts) = 0"
  "currentActivity (constructor opts) = None"
  "messageQueue (constructor opts) = []"
  "pendingResponses (constructor opts) = []"
  "next_id (constructor opts) = 0"
  "timers (constructor opts) = []"
  "settlements (constructor opts) = []"
  "wire (constructor opts) = []"
  "events (constructor opts) = []"
  by (simp_all add: constructor_def)

lemma connect_first_path:
  assumes "\<not> connected s"
  shows "connected (after (connect s (Some 0)))" "socket (after (connect s (Some 0)))"
    "messageQueue (after (connect s (Some 0))) = messageQueue s"
    "wire (after (connect s (Some 0))) = wire s"
    "events (after (connect s (Some 0))) = events s @ [EvConnect]"
    "autoReconnect (after (connect s (Some 0))) = autoReconnect s"
    "pendingResponses (after (connect s (Some 0))) = pendingResponses s"
    "timers (after (connect s (Some 0))) = timers s"
    "settlements (after (connect s (Some 0))) = settlements s"
    "next_id (after (connect s (Some 0))) = next_id s"
  using assms by (simp_all add: connect_def after_def Let_def)

theorem queue_flushed_in_order_witness:
  "\<exists>s'. authenticate_resume (table_runtime [(JNum 1, ''1''), (JNum 2, ''2'')])
          (after (connect (run (table_runtime [(JNum 1, ''1''), (JNum 2, ''2'')])
                             (constructor example_options)
                             [Send 0 (JNum 1), Send 1 (JNum 2)]) (Some 0)))
          None (Resolved JNull) = Some (Inr s')
        \<and> messageQueue s' = []
        \<and> wire s' = [frame_of 0 (ascii ''1''), frame_of 1 (ascii ''2'')]"
proof -
  let ?rt = "table_runtime [(JNum 1, ''1''), (JNum 2, ''2'')]"
  let ?s0 = "constructor example_options"
  let ?s1 = "run ?rt ?s0 [Send 0 (JNum 1), Send 1 (JNum 2)]"
  let ?s2 = "after (connect ?s1 (Some 0))"
  have off: "\<not> connected ?s0" "autoReconnect ?s0" "messageQueue ?s0 = []" "wire ?s0 = []"
    by (simp_all add: constructor_fields example_options_def)
  have queued: "messageQueue ?s1 = [(0, JNum 1), (1, JNum 2)]" "\<not> connected ?s1" "wire ?s1 = []"
    using queued_in_order [OF off(1,2), of ?rt "[(0, JNum 1), (1, JNum 2)]"] off(3,4)
    by simp_all
  then have up: "connected ?s2" "socket ?s2" "messageQueue ?s2 = [(0, JNum 1), (1, JNum 2)]"
    "wire ?s2 = []"
    by (simp_all add: connect_first_path)
  have fits: "\<forall>m \<in> set (messageQueue ?s2).
      0 \<le> fst m \<and> fst m < 4294967296 \<and> length (JSON_stringify ?rt (snd m)) < 4294967296"
    unfolding up(3) by (simp add: table_runtime_def ascii_def)
  show ?thesis
    using queue_flushed_in_order [OF fits up(1,2), of None JNull, THEN conjunct2] up(3,4)
    by (auto simp: table_runtime_def)
qed

lemma command_timeout_fields:
  "connected (command_timeout s r) = connected s"
  "autoReconnect (command_timeout s r) = autoReconnect s"
  "socket (command_timeout s r) = socket s"
  "messageQueue (command_timeout s r) = messageQueue s"
  "events (command_timeout s r) = events s"
  "wire (command_timeout s r) = wire s"
  "currentActivity (command_timeout s r) = currentActivity s"
  "authenticated (command_timeout s r) = authenticated s"
  "debug (command_timeout s r) = debug s"
  "clientId (command_timeout s r) = clientId s"
  "next_id (command_timeout s r) = next_id s"
  by (simp_all add: command_timeout_def split: option.splits prod.splits)

lemma sendCommand_queued:
  "\<not> connected s \<Longrightarrow> autoReconnect s \<Longrightarrow>
   messageQueue (fst (sendCommand rt s cmd args t nonce))
     = messageQueue s
       @ [(1, JObj [(''cmd'', JStr cmd), (''nonce'', JStr nonce), (''args'', args)])]"
  by (simp add: sendCommand_def Let_def send_def)

lemma timeout_text_unmarked:
  "\<not> str_includes (message_of (CommandTimeout ''AUTHORIZE'')) ''Invalid Client ID''"
  "\<not> str_includes (message_of (CommandTimeout ''AUTHORIZE'')) ''Unknown Application''"
  by simp_all

lemma offline_authorize_fields:
  "\<not> connected offline_authorize" "autoReconnect offline_authorize"
  "length (messageQueue offline_authorize) = 1"
  "settlements offline_authorize = [(0, Rejected (CommandTimeout ''AUTHORIZE''))]"
  by (simp_all add: offline_authorize_def authenticate_start_def no_token_def
      command_timeout_fields command_timeout_armed sendCommand_fields sendCommand_queued
      sendCommand_settlements constructor_fields example_options_def)

text \<open>
  C7: the code does not do this. A session that is disconnected with auto-reconnect on
  re-queues what \<open>send\<close> is given, so a flush there takes an entry from the head of the
  queue and puts it back at the tail, for ever: \<open>authenticate()\<close> on a session that never
  connected queues its \<open>AUTHORIZE\<close>, the command times out after 15 seconds, the method
  goes on to the flush, and the flush does not return.
\<close>

theorem flush_while_disconnected_never_returns:
  "await offline_authorize 0 = Some (Rejected (CommandTimeout ''AUTHORIZE''))
   \<and> \<not> connected offline_authorize \<and> autoReconnect offline_authorize
   \<and> length (messageQueue offline_authorize) = 1
   \<and> processQueue (table_runtime []) offline_authorize = None
   \<and> authenticate_resume (table_runtime []) offline_authorize None
        (Rejected (CommandTimeout ''AUTHORIZE'')) = None"
proof -
  let ?rt = "table_runtime []"
  let ?e = "CommandTimeout ''AUTHORIZE''"
  let ?s1 = "log (log offline_authorize Warn (AuthorizationFailed (message_of ?e)))
               Warn ContinuingWithoutAuth"
  let ?s2 = "emit (?s1\<lparr>authenticated := True\<rparr>) EvAuthenticated"
  have stuck: "processQueue ?rt offline_authorize = None"
    using offline_authorize_fields(1,2,3) by (intro processQueue_diverges) auto
  have "\<not> connected ?s2" "autoReconnect ?s2" "messageQueue ?s2 \<noteq> []"
    using offline_authorize_fields(1,2,3) by auto
  then have "processQueue ?rt ?s2 = None"
    by (rule processQueue_diverges)
  then have "authenticate_resume ?rt offline_authorize None (Rejected ?e) = None"
    using timeout_text_unmarked
    by (simp add: authenticate_resume_def authenticate_finish_def no_token_def Let_def
        del: message_of.simps)
  with stuck offline_authorize_fields show ?thesis
    by (simp add: await_def promise_state_def)
qed

section \<open>authenticate without a token\<close>

text \<open>
  C8, as the code has it. When \<open>authenticate\<close> was called with no token and \<open>AUTHORIZE\<close> is
  rejected, the method logs a warning; an error whose text contains \<open>Invalid Client ID\<close> or
  \<open>Unknown Application\<close> is then thrown to the caller as an invalid-client-id error and
  \<open>authenticated\<close> stays as it was; any other error (the time-out's text contains neither)
  is swallowed: on a session whose transport is up, \<open>authenticated\<close> becomes true, the
  notification is emitted and the queue is flushed in order.
\<close>

theorem authorize_failure_degrades:
  assumes "no_token accessToken"
  shows "(str_includes (message_of e) ''Invalid Client ID''
            \<or> str_includes (message_of e) ''Unknown Application'' \<longrightarrow>
          authenticate_resume rt s accessToken (Rejected e)
            = Some (Inl (InvalidClientId (clientId s),
                         log s Warn (AuthorizationFailed (message_of e)))))
       \<and> (\<not> str_includes (message_of e) ''Invalid Client ID''
            \<and> \<not> str_includes (message_of e) ''Unknown Application''
            \<and> connected s \<and> socket s
            \<and> (\<forall>m \<in> set (messageQueue s).
                  0 \<le> fst m \<and> fst m < 4294967296
                  \<and> length (JSON_stringify rt (snd m)) < 4294967296) \<longrightarrow>
          (\<exists>s'. authenticate_resume rt s accessToken (Rejected e) = Some (Inr s')
             \<and> authenticated s' \<and> events s' = events s @ [EvAuthenticated]
             \<and> messageQueue s' = []
             \<and> wire s' = wire s @ map (\<lambda>m. frame_of (nat (fst m)) (JSON_stringify rt (snd m)))
                                    (messageQueue s)
             \<and> logs s' = logs s
                 @ (if debug s
                    then [(Warn, AuthorizationFailed (message_of e)), (Warn, ContinuingWithoutAuth)]
                         @ map (\<lambda>m. (Info, Sent (snd m))) (messageQueue s)
                    else [])))
       \<and> \<not> str_includes (message_of (CommandTimeout ''AUTHORIZE'')) ''Invalid Client ID''
       \<and> \<not> str_includes (message_of (CommandTimeout ''AUTHORIZE'')) ''Unknown Application''"
proof (intro conjI impI)
  assume "str_includes (message_of e) ''Invalid Client ID''
            \<or> str_includes (message_of e) ''Unknown Application''"
  with assms show "authenticate_resume rt s accessToken (Rejected e)
            = Some (Inl (InvalidClientId (clientId s),
                         log s Warn (AuthorizationFailed (message_of e))))"
    by (simp add: authenticate_resume_def Let_def del: message_of.simps)
next
  assume a: "\<not> str_includes (message_of e) ''Invalid Client ID''
            \<and> \<not> str_includes (message_of e) ''Unknown Application''
            \<and> connected s \<and> socket s
            \<and> (\<forall>m \<in> set (messageQueue s).
                  0 \<le> fst m \<and> fst m < 4294967296
                  \<and> length (JSON_stringify rt (snd m)) < 4294967296)"
  let ?s1 = "log (log s Warn (AuthorizationFailed (message_of e))) Warn ContinuingWithoutAuth"
  have resume: "authenticate_resume rt s accessToken (Rejected e) = authenticate_finish rt ?s1"
    using assms a by (simp add: authenticate_resume_def Let_def del: message_of.simps)
  have "connected ?s1" "socket ?s1"
    "\<forall>m \<in> set (messageQueue ?s1).
       0 \<le> fst m \<and> fst m < 4294967296 \<and> length (JSON_stringify rt (snd m)) < 4294967296"
    using a by simp_all
  from authenticate_finish_flushes [OF this] obtain s' where
    "authenticate_finish rt ?s1 = Some (Inr s')" "authenticated s'"
    "events s' = events ?s1 @ [EvAuthenticated]" "messageQueue s' = []"
    "wire s' = wire ?s1 @ map (\<lambda>m. frame_of (nat (fst m)) (JSON_stringify rt (snd m)))
                                   (messageQueue ?s1)"
    "logs s' = logs ?s1 @ (if debug ?s1 then map (\<lambda>m. (Info, Sent (snd m))) (messageQueue ?s1)
                                   else [])"
    by blast
  then show "\<exists>s'. authenticate_resume rt s accessToken (Rejected e) = Some (Inr s')
             \<and> authenticated s' \<and> events s' = events s @ [EvAuthenticated]
             \<and> messageQueue s' = []
             \<and> wire s' = wire s @ map (\<lambda>m. frame_of (nat (fst m)) (JSON_stringify rt (snd m)))
                                    (messageQueue s)
             \<and> logs s' = logs s
                 @ (if debug s
                    then [(Warn, AuthorizationFailed (message_of e)), (Warn, ContinuingWithoutAuth)]
                         @ map (\<lambda>m. (Info, Sent (snd m))) (messageQueue s)
                    else [])"
    using resume by (simp add: logs_log del: message_of.simps)
next
  show "\<not> str_includes (message_of (CommandTimeout ''AUTHORIZE'')) ''Invalid Client ID''"
    and "\<not> str_includes (message_of (CommandTimeout ''AUTHORIZE'')) ''Unknown Application''"
    by (rule timeout_text_unmarked)+
qed


theorem authorize_failure_degrades_witness:
  "\<exists>s'. authenticate_resume (table_runtime [])
           (command_timeout
              (fst (authenticate_start (table_runtime []) connected_session None ''n1'')) 0)
           None (Rejected (CommandTimeout ''AUTHORIZE'')) = Some (Inr s')
         \<and> authenticated s' \<and> events s' = [EvConnect, EvAuthenticated] \<and> messageQueue s' = []"
proof -
  let ?rt = "table_runtime []"
  let ?s = "command_timeout (fst (authenticate_start ?rt connected_session None ''n1'')) 0"
  have up: "connected ?s" "socket ?s" "messageQueue ?s = []" "events ?s = [EvConnect]"
    by (simp_all add: command_timeout_fields authenticate_start_def no_token_def
        sendCommand_fields connected_session_fields sendCommand_def Let_def send_def
        null_runtime_frame)
  have fits: "\<forall>m \<in> set (messageQueue ?s).
      0 \<le> fst m \<and> fst m < 4294967296 \<and> length (JSON_stringify ?rt (snd m)) < 4294967296"
    unfolding up(3) by simp
  have none: "no_token None"
    by (simp add: no_token_def)
  show ?thesis
    using authorize_failure_degrades [OF none, of "CommandTimeout ''AUTHORIZE''" ?rt ?s,
        THEN conjunct2, THEN conjunct1] up fits timeout_text_unmarked
    by (auto simp del: message_of.simps)
qed

lemma handleMessage_matched:
  assumes "JSON_parse rt payload = Some message"
      and "get_prop (Some message) ''nonce'' = Inr (Some (JStr n))" "n \<noteq> []"
      and "map_of (pendingResponses s) n = Some r"
  shows "handleMessage rt s opcode payload
           = (case response_callback rt
                     ((log s Info (Received message))
                        \<lparr>pendingResponses := AList.delete n (pendingResponses s)\<rparr>) r message of
                Inl (e, s') \<Rightarrow> log s' ErrorLevel (FailedToParse e)
              | Inr s' \<Rightarrow> s')"
  using assms by (simp add: handleMessage_def handleMessage_try_def Let_def)

lemma refused_authorize_fields:
  "settlements refused_authorize = [(0, Rejected (RemoteError ''Invalid Client ID''))]"
  "authenticated refused_authorize = False"
  "clientId refused_authorize = Some ''42''"
proof -
  let ?rt = "table_runtime [(authorize_error, authorize_error_text)]"
  let ?s1 = "fst (authenticate_start ?rt connected_session None ''n1'')"
  have parse: "JSON_parse ?rt (ascii authorize_error_text) = Some authorize_error"
    by (simp add: table_runtime_def)
  have nonce: "get_prop (Some authorize_error) ''nonce'' = Inr (Some (JStr ''n1''))"
    by (simp add: authorize_error_def)
  have pending: "map_of (pendingResponses ?s1) ''n1'' = Some 0"
    by (simp add: authenticate_start_def no_token_def sendCommand_fields
        connected_session_fields)
  let ?message = "JObj [(''cmd'', JStr ''AUTHORIZE''), (''nonce'', JStr ''n1''),
      (''args'', js_object [(''client_id'', map_option JStr (clientId connected_session)),
                            (''scopes'', Some (JArr [JStr ''rpc'']))])]"
  have "frame_bytes ?rt 1 ?message = Inr (frame_of 1 (JSON_stringify ?rt ?message))"
    using frame_bytes_frame_of [of 1 ?rt ?message]
    by (simp add: table_runtime_def ascii_def authorize_error_text_def split: option.splits)
  then have before: "settlements ?s1 = []" "authenticated ?s1 = False"
    "clientId ?s1 = Some ''42''"
    by (simp_all add: authenticate_start_def no_token_def sendCommand_fields
        sendCommand_settlements connected_session_fields)
  have handled: "refused_authorize
      = (case response_callback ?rt
                     ((log ?s1 Info (Received authorize_error))
                        \<lparr>pendingResponses := AList.delete ''n1'' (pendingResponses ?s1)\<rparr>)
                     0 authorize_error of
                Inl (e, s') \<Rightarrow> log s' ErrorLevel (FailedToParse e)
              | Inr s' \<Rightarrow> s')"
    unfolding refused_authorize_def
    using parse nonce _ pending by (rule handleMessage_matched) simp
  show "settlements refused_authorize = [(0, Rejected (RemoteError ''Invalid Client ID''))]"
    "authenticated refused_authorize = False"
    "clientId refused_authorize = Some ''42''"
    unfolding handled using before
    by (simp_all add: response_callback_def authorize_error_def error_text_def
        table_runtime_def Let_def)
qed

text \<open>
  C8 as stated fails: \<open>authenticate()\<close> with no token on a connected session, and the
  remote answers \<open>AUTHORIZE\<close> with the error \<open>Invalid Client ID\<close>. The command is rejected
  with that error, \<open>authenticate\<close> throws to its caller and \<open>authenticated\<close> is false.
\<close>

theorem authorize_rejection_can_propagate:
  "await refused_authorize 0 = Some (Rejected (RemoteError ''Invalid Client ID''))
   \<and> authenticate_resume (table_runtime [(authorize_error, authorize_error_text)])
        refused_authorize None (Rejected (RemoteError ''Invalid Client ID''))
       = Some (Inl (InvalidClientId (Some ''42''),
                    log refused_authorize Warn (AuthorizationFailed ''Invalid Client ID'')))
   \<and> \<not> authenticated (log refused_authorize Warn (AuthorizationFailed ''Invalid Client ID''))"
  by (simp add: await_def promise_state_def refused_authorize_fields authenticate_resume_def
      no_token_def Let_def)

section \<open>setActivity\<close>

text \<open>
  C10. Whatever the activity: up to its \<open>await\<close>, \<open>setActivity\<close> either throws what
  \<open>processActivity\<close> throws and leaves the session as it is, or issues \<open>SET_ACTIVITY\<close>
  without touching \<open>currentActivity\<close> or emitting anything. When the command is rejected,
  the same error is thrown to the caller, \<open>currentActivity\<close> is what it was and nothing is
  emitted: the session only gains a log line. Only when the command is resolved does
  \<open>currentActivity\<close> become the processed activity, with an \<open>activitySet\<close> notification.
\<close>

theorem setActivity_rejection_propagates:
  "setActivity_resume s processedActivity (Rejected e)
     = Inl (e, log s ErrorLevel (FailedToSetActivity (message_of e)))
   \<and> currentActivity (after (setActivity_resume s processedActivity (Rejected e)))
       = currentActivity s
   \<and> events (after (setActivity_resume s processedActivity (Rejected e))) = events s
   \<and> setActivity_resume s processedActivity (Resolved response)
       = Inr (emit (s\<lparr>currentActivity := Some processedActivity\<rparr>)
                (EvActivitySet processedActivity))
   \<and> (case setActivity_start rt s activity pid nonce of
         Inl (e', s') \<Rightarrow> processActivity s activity = Inl e' \<and> s' = s
       | Inr (s', r, p) \<Rightarrow>
           processActivity s activity = Inr p \<and> r = next_id s
           \<and> map_of (timers s') r = Some (nonce, ''SET_ACTIVITY'')
           \<and> currentActivity s' = currentActivity s \<and> events s' = events s)"
proof (intro conjI)
  show "setActivity_resume s processedActivity (Rejected e)
     = Inl (e, log s ErrorLevel (FailedToSetActivity (message_of e)))"
    by (simp add: setActivity_resume_def)
  then show "currentActivity (after (setActivity_resume s processedActivity (Rejected e)))
       = currentActivity s"
    and "events (after (setActivity_resume s processedActivity (Rejected e))) = events s"
    by (simp_all add: after_def)
  show "setActivity_resume s processedActivity (Resolved response)
       = Inr (emit (s\<lparr>currentActivity := Some processedActivity\<rparr>)
                (EvActivitySet processedActivity))"
    by (simp add: setActivity_resume_def)
  show "case setActivity_start rt s activity pid nonce of
         Inl (e', s') \<Rightarrow> processActivity s activity = Inl e' \<and> s' = s
       | Inr (s', r, p) \<Rightarrow>
           processActivity s activity = Inr p \<and> r = next_id s
           \<and> map_of (timers s') r = Some (nonce, ''SET_ACTIVITY'')
           \<and> currentActivity s' = currentActivity s \<and> events s' = events s"
  proof (cases "processActivity s activity")
    case (Inl e')
    then show ?thesis
      by (simp add: setActivity_start_def)
  next
    case (Inr p)
    let ?args = "JObj [(''pid'', JNum pid), (''activity'', JObj p)]"
    obtain s' r where sc: "sendCommand rt s ''SET_ACTIVITY'' ?args 10000 nonce = (s', r)"
      by (cases "sendCommand rt s ''SET_ACTIVITY'' ?args 10000 nonce")
    have "s' = fst (sendCommand rt s ''SET_ACTIVITY'' ?args 10000 nonce)"
      and "r = snd (sendCommand rt s ''SET_ACTIVITY'' ?args 10000 nonce)"
      using sc by simp_all
    then have "r = next_id s" "map_of (timers s') r = Some (nonce, ''SET_ACTIVITY'')"
      "currentActivity s' = currentActivity s" "events s' = events s"
      by (simp_all add: sendCommand_fields update_conv')
    with Inr sc show ?thesis
      by (simp add: setActivity_start_def)
  qed
qed

section \<open>The request correlator\<close>

lemma firings_cong:
  "settlements s' = settlements s \<Longrightarrow> firings s' r = firings s r"
  by (simp add: firings_def)

lemma correlator_inv_cong:
  assumes "pendingResponses s' = pendingResponses s" "timers s' = timers s"
    "settlements s' = settlements s" "next_id s' = next_id s"
  shows "correlator_inv s' = correlator_inv s"
  using assms by (simp add: correlator_inv_def firings_def)

lemma settled_or_armed_cong:
  assumes "timers s' = timers s" "settlements s' = settlements s" "next_id s' = next_id s"
  shows "settled_or_armed s' = settled_or_armed s"
  using assms by (simp add: settled_or_armed_def promise_state_def)

lemma firings_unsettled:
  "\<forall>out. (r, out) \<notin> set (settlements s) \<Longrightarrow> firings s r = []"
  by (auto simp: firings_def filter_empty_conv)

lemma correlator_invD:
  assumes "correlator_inv s"
  shows "distinct (map fst (pendingResponses s))"
    and "distinct (map fst (timers s))"
    and "\<And>n r. map_of (pendingResponses s) n = Some r \<Longrightarrow> \<exists>cmd. map_of (timers s) r = Some (n, cmd)"
    and "\<And>r. map_of (timers s) r \<noteq> None \<Longrightarrow> r < next_id s"
    and "\<And>r out. (r, out) \<in> set (settlements s) \<Longrightarrow> r < next_id s"
    and "\<And>r. map_of (timers s) r \<noteq> None \<Longrightarrow> firings s r = []"
    and "\<And>r. length (firings s r) \<le> 1"
  using assms unfolding correlator_inv_def by blast+

lemma correlator_inv_sendCommand:
  assumes "correlator_inv s"
  shows "correlator_inv (fst (sendCommand rt s cmd args t nonce))"
proof -
  let ?s' = "fst (sendCommand rt s cmd args t nonce)"
  let ?r = "next_id s"
  note inv = correlator_invD [OF assms]
  have fresh: "map_of (timers s) ?r = None" "\<forall>out. (?r, out) \<notin> set (settlements s)"
  proof -
    show "map_of (timers s) ?r = None"
      using inv(4) [of ?r] by (cases "map_of (timers s) ?r") simp_all
    show "\<forall>out. (?r, out) \<notin> set (settlements s)"
      using inv(5) [of ?r] by auto
  qed
  have t': "map_of (timers ?s') = (map_of (timers s))(?r \<mapsto> (nonce, cmd))"
    by (simp add: sendCommand_fields update_conv')
  have p': "map_of (pendingResponses ?s') = (map_of (pendingResponses s))(nonce \<mapsto> ?r)"
    by (simp add: sendCommand_fields update_conv')
  obtain extra where st: "settlements ?s' = settlements s @ extra"
    and extra: "\<forall>x \<in> set extra. fst x = ?r \<and> \<not> correlated (snd x)"
    by (cases "frame_bytes rt 1 (JObj [(''cmd'', JStr cmd), (''nonce'', JStr nonce),
          (''args'', args)])")
      (auto simp: sendCommand_settlements frame_bytes_def writeUInt32LE_def Let_def
        split: if_splits sum.splits)
  have f': "firings ?s' r = firings s r" for r
    using st extra by (auto simp: firings_def filter_empty_conv)
  show ?thesis
    unfolding correlator_inv_def
  proof (intro conjI allI impI)
    show "distinct (map fst (pendingResponses ?s'))"
      using inv(1) by (simp add: sendCommand_fields distinct_update)
    show "distinct (map fst (timers ?s'))"
      using inv(2) by (simp add: sendCommand_fields distinct_update)
    show "\<exists>c. map_of (timers ?s') r = Some (n, c)" if "map_of (pendingResponses ?s') n = Some r"
      for n r
    proof (cases "n = nonce")
      case True
      with that show ?thesis
        unfolding t' p' by simp
    next
      case False
      with that have old: "map_of (pendingResponses s) n = Some r"
        unfolding p' by simp
      from inv(3) [OF this] obtain c where c: "map_of (timers s) r = Some (n, c)"
        by blast
      with fresh(1) have "r \<noteq> ?r"
        by auto
      with c show ?thesis
        unfolding t' by simp
    qed
    show "r < next_id ?s'" if "map_of (timers ?s') r \<noteq> None" for r
      using that inv(4) [of r] unfolding t'
      by (auto simp: sendCommand_fields less_Suc_eq split: if_splits)
    show "r < next_id ?s'" if "(r, out) \<in> set (settlements ?s')" for r out
      using that inv(5) [of r out] extra unfolding st
      by (auto simp: sendCommand_fields less_Suc_eq)
    show "firings ?s' r = []" if "map_of (timers ?s') r \<noteq> None" for r
    proof (cases "r = ?r")
      case True
      with fresh(2) show ?thesis
        unfolding f' by (simp add: firings_unsettled)
    next
      case False
      with that inv(6) [of r] show ?thesis
        unfolding t' f' by simp
    qed
    show "length (firings ?s' r) \<le> 1" for r
      using inv(7) [of r] unfolding f' .
  qed
qed

lemma settled_or_armed_sendCommand:
  assumes "settled_or_armed s"
  shows "settled_or_armed (fst (sendCommand rt s cmd args t nonce))"
proof -
  let ?s' = "fst (sendCommand rt s cmd args t nonce)"
  have t': "map_of (timers ?s') = (map_of (timers s))((next_id s) \<mapsto> (nonce, cmd))"
    by (simp add: sendCommand_fields update_conv')
  obtain extra where st: "settlements ?s' = settlements s @ extra"
    by (simp add: sendCommand_settlements)
  have "promise_state ?s' r \<noteq> None \<or> map_of (timers ?s') r \<noteq> None" if "r < Suc (next_id s)" for r
  proof (cases "r = next_id s")
    case True
    then show ?thesis
      unfolding t' by simp
  next
    case False
    with that assms have "promise_state s r \<noteq> None \<or> map_of (timers s) r \<noteq> None"
      by (simp add: settled_or_armed_def)
    with False show ?thesis
      unfolding t' by (auto simp: promise_state_def st)
  qed
  then show ?thesis
    by (simp add: settled_or_armed_def sendCommand_fields)
qed

text \<open>
  A timer that fires and a response that is matched do the same to the correlator: the
  timer of the promise goes, the entry under its nonce goes, and at most one settlement of
  that promise is added.
\<close>

lemma correlator_inv_fire:
  assumes "correlator_inv s"
      and armed: "map_of (timers s) r = Some (nonce, cmd)"
      and t': "timers s' = AList.delete r (timers s)"
      and p': "pendingResponses s' = AList.delete nonce (pendingResponses s)"
      and n': "next_id s' = next_id s"
      and st: "settlements s' = settlements s @ extra"
      and extra: "extra = [] \<or> (\<exists>out. extra = [(r, out)])"
  shows "correlator_inv s'"
proof -
  note inv = correlator_invD [OF assms(1)]
  have f_other: "firings s' x = firings s x" if "x \<noteq> r" for x
    using that extra unfolding firings_def st by auto
  have f_r: "length (firings s' r) \<le> 1"
    using inv(6) [of r] armed extra unfolding firings_def st by auto
  show ?thesis
    unfolding correlator_inv_def
  proof (intro conjI allI impI)
    show "distinct (map fst (pendingResponses s'))"
      using inv(1) unfolding p' by (rule distinct_delete)
    show "distinct (map fst (timers s'))"
      using inv(2) unfolding t' by (rule distinct_delete)
    show "\<exists>c. map_of (timers s') x = Some (n, c)" if "map_of (pendingResponses s') n = Some x"
      for n x
    proof -
      from that have "n \<noteq> nonce" and old: "map_of (pendingResponses s) n = Some x"
        unfolding p' by (auto simp: delete_conv' split: if_splits)
      from inv(3) [OF old] obtain c where c: "map_of (timers s) x = Some (n, c)"
        by blast
      with armed \<open>n \<noteq> nonce\<close> have "x \<noteq> r"
        by auto
      with c show ?thesis
        unfolding t' by (simp add: delete_conv')
    qed
    show "x < next_id s'" if "map_of (timers s') x \<noteq> None" for x
      using that inv(4) [of x] unfolding t' n' by (auto simp: delete_conv' split: if_splits)
    show "x < next_id s'" if "(x, out) \<in> set (settlements s')" for x out
      using that inv(5) [of x out] inv(4) [of r] armed extra unfolding st n' by auto
    show "firings s' x = []" if "map_of (timers s') x \<noteq> None" for x
    proof -
      from that have "x \<noteq> r" "map_of (timers s) x \<noteq> None"
        unfolding t' by (auto simp: delete_conv' split: if_splits)
      with inv(6) [of x] f_other [of x] show ?thesis
        by simp
    qed
    show "length (firings s' x) \<le> 1" for x
      using inv(7) [of x] f_other [of x] f_r by (cases "x = r") simp_all
  qed
qed

lemma correlator_inv_command_timeout:
  assumes "correlator_inv s"
  shows "correlator_inv (command_timeout s r)"
proof (cases "map_of (timers s) r")
  case None
  then show ?thesis
    using assms by (simp add: command_timeout_def)
next
  case (Some armed)
  obtain nonce cmd where armed: "map_of (timers s) r = Some (nonce, cmd)"
    using Some by (cases armed) simp
  show ?thesis
    using assms armed
  proof (rule correlator_inv_fire)
    show "settlements (command_timeout s r)
            = settlements s @ [(r, Rejected (CommandTimeout cmd))]"
      using armed by (simp add: command_timeout_def)
  qed (use armed in \<open>simp_all add: command_timeout_def\<close>)
qed

lemma settled_or_armed_command_timeout:
  assumes "settled_or_armed s"
  shows "settled_or_armed (command_timeout s r)"
proof (cases "map_of (timers s) r")
  case None
  then show ?thesis
    using assms by (simp add: command_timeout_def)
next
  case (Some armed)
  obtain nonce cmd where armed: "map_of (timers s) r = Some (nonce, cmd)"
    using Some by (cases armed) simp
  let ?s' = "command_timeout s r"
  have t': "timers ?s' = AList.delete r (timers s)"
    and st: "settlements ?s' = settlements s @ [(r, Rejected (CommandTimeout cmd))]"
    and n': "next_id ?s' = next_id s"
    using armed by (simp_all add: command_timeout_def)
  have "promise_state ?s' x \<noteq> None \<or> map_of (timers ?s') x \<noteq> None" if "x < next_id s" for x
  proof -
    from that assms have "promise_state s x \<noteq> None \<or> map_of (timers s) x \<noteq> None"
      by (simp add: settled_or_armed_def)
    then show ?thesis
      unfolding t' promise_state_def st by (auto simp: delete_conv')
  qed
  then show ?thesis
    by (simp add: settled_or_armed_def n')
qed


lemma pending_lookup_Some:
  "pending_lookup s v = Some (n, r) \<Longrightarrow>
   v = Some (JStr n) \<and> n \<noteq> [] \<and> map_of (pendingResponses s) n = Some r"
  by (cases "(s, v)" rule: pending_lookup.cases) (auto split: if_splits option.splits)

lemma pending_lookup_cong:
  "pendingResponses s' = pendingResponses s \<Longrightarrow> pending_lookup s' v = pending_lookup s v"
  by (cases "(s, v)" rule: pending_lookup.cases) simp_all

lemma handleDispatch_fields:
  "pendingResponses (after (handleDispatch rt s message)) = pendingResponses s"
  "timers (after (handleDispatch rt s message)) = timers s"
  "settlements (after (handleDispatch rt s message)) = settlements s"
  "next_id (after (handleDispatch rt s message)) = next_id s"
  by (simp_all add: handleDispatch_def after_def split: sum.splits)

lemma handleMessage_after:
  "pendingResponses (handleMessage rt s opcode payload)
     = pendingResponses (after (handleMessage_try rt s payload))"
  "timers (handleMessage rt s opcode payload) = timers (after (handleMessage_try rt s payload))"
  "settlements (handleMessage rt s opcode payload)
     = settlements (after (handleMessage_try rt s payload))"
  "next_id (handleMessage rt s opcode payload) = next_id (after (handleMessage_try rt s payload))"
  by (simp_all add: handleMessage_def after_def split: sum.splits)

text \<open>A frame that matches no pending nonce leaves the correlator alone.\<close>

lemma handleMessage_unmatched:
  assumes "\<And>message v. JSON_parse rt payload = Some message \<Longrightarrow>
             get_prop (Some message) ''nonce'' = Inr v \<Longrightarrow> pending_lookup s v = None"
  shows "pendingResponses (handleMessage rt s opcode payload) = pendingResponses s"
    and "timers (handleMessage rt s opcode payload) = timers s"
    and "settlements (handleMessage rt s opcode payload) = settlements s"
    and "next_id (handleMessage rt s opcode payload) = next_id s"
proof -
  have "pendingResponses (after (handleMessage_try rt s payload)) = pendingResponses s
      \<and> timers (after (handleMessage_try rt s payload)) = timers s
      \<and> settlements (after (handleMessage_try rt s payload)) = settlements s
      \<and> next_id (after (handleMessage_try rt s payload)) = next_id s"
  proof (cases "JSON_parse rt payload")
    case None
    then show ?thesis
      by (simp add: handleMessage_try_def after_def)
  next
    case (Some message)
    show ?thesis
    proof (cases "get_prop (Some message) ''nonce''")
      case (Inl e)
      with Some show ?thesis
        by (simp add: handleMessage_try_def after_def)
    next
      case (Inr v)
      let ?s1 = "log s Info (Received message)"
      from assms [OF Some Inr] have unmatched: "pending_lookup ?s1 v = None"
        using pending_lookup_cong [of ?s1 s v] by simp
      show ?thesis
      proof (cases "get_prop (Some message) ''cmd''")
        case (Inl e)
        with Some Inr unmatched show ?thesis
          by (simp add: handleMessage_try_def Let_def after_def)
      next
        case cmd: (Inr c)
        show ?thesis
        proof (cases "c = Some (JStr ''DISPATCH'')")
          case True
          with Some Inr unmatched cmd
          have "handleMessage_try rt s payload = handleDispatch rt ?s1 message"
            by (simp add: handleMessage_try_def Let_def)
          then show ?thesis
            by (simp add: handleDispatch_fields)
        next
          case False
          with Some Inr unmatched cmd
          have "handleMessage_try rt s payload = Inr (emit ?s1 (EvMessage message))"
            by (simp add: handleMessage_try_def Let_def)
          then show ?thesis
            by (simp add: after_def)
        qed
      qed
    qed
  qed
  then show "pendingResponses (handleMessage rt s opcode payload) = pendingResponses s"
    and "timers (handleMessage rt s opcode payload) = timers s"
    and "settlements (handleMessage rt s opcode payload) = settlements s"
    and "next_id (handleMessage rt s opcode payload) = next_id s"
    by (simp_all add: handleMessage_after)
qed


lemma response_callback_fields:
  "pendingResponses (after (response_callback rt s r message)) = pendingResponses s"
  "timers (after (response_callback rt s r message)) = AList.delete r (timers s)"
  "next_id (after (response_callback rt s r message)) = next_id s"
  by (simp_all add: response_callback_def after_def Let_def split: sum.splits)

lemma response_callback_settlements:
  "\<exists>extra. settlements (after (response_callback rt s r message)) = settlements s @ extra
      \<and> (extra = [] \<or> (\<exists>out. correlated out \<and> extra = [(r, out)]))"
  by (auto simp: response_callback_def after_def Let_def split: sum.splits)

lemma response_callback_settles:
  assumes "error_has_data (JObj fs)"
  shows "\<exists>out. settlements (after (response_callback rt s r (JObj fs)))
                  = settlements s @ [(r, out)]"
proof (cases "map_of fs ''evt'' = Some (JStr ''ERROR'')")
  case False
  then show ?thesis
    by (simp add: response_callback_def after_def Let_def)
next
  case True
  with assms obtain d where d: "map_of fs ''data'' = Some d" "d \<noteq> JNull"
    by (auto simp: error_has_data_def split: option.splits)
  then obtain m where "get_prop (Some d) ''message'' = Inr m"
    by (cases d) simp_all
  with True d show ?thesis
    by (simp add: response_callback_def after_def Let_def)
qed

lemma handleMessage_matched_fields:
  assumes "JSON_parse rt payload = Some message"
      and "get_prop (Some message) ''nonce'' = Inr v"
      and "pending_lookup s v = Some (n, r)"
  shows "pendingResponses (handleMessage rt s opcode payload)
           = AList.delete n (pendingResponses s)"
    and "timers (handleMessage rt s opcode payload) = AList.delete r (timers s)"
    and "next_id (handleMessage rt s opcode payload) = next_id s"
    and "\<exists>extra. settlements (handleMessage rt s opcode payload) = settlements s @ extra
            \<and> (extra = [] \<or> (\<exists>out. correlated out \<and> extra = [(r, out)]))"
    and "error_has_data message \<Longrightarrow>
         \<exists>out. settlements (handleMessage rt s opcode payload) = settlements s @ [(r, out)]"
proof -
  let ?s1 = "(log s Info (Received message))
               \<lparr>pendingResponses := AList.delete n (pendingResponses s)\<rparr>"
  from pending_lookup_Some [OF assms(3)]
  have v: "v = Some (JStr n)" and n: "n \<noteq> []" and r: "map_of (pendingResponses s) n = Some r"
    by simp_all
  have "handleMessage rt s opcode payload
          = (case response_callback rt ?s1 r message of
               Inl (e, s') \<Rightarrow> log s' ErrorLevel (FailedToParse e)
             | Inr s' \<Rightarrow> s')"
    using assms(1) assms(2) [unfolded v] n r by (rule handleMessage_matched)
  then have same:
    "pendingResponses (handleMessage rt s opcode payload)
       = pendingResponses (after (response_callback rt ?s1 r message))"
    "timers (handleMessage rt s opcode payload)
       = timers (after (response_callback rt ?s1 r message))"
    "next_id (handleMessage rt s opcode payload)
       = next_id (after (response_callback rt ?s1 r message))"
    "settlements (handleMessage rt s opcode payload)
       = settlements (after (response_callback rt ?s1 r message))"
    by (simp_all add: after_def split: sum.splits)
  show "pendingResponses (handleMessage rt s opcode payload)
           = AList.delete n (pendingResponses s)"
    and "timers (handleMessage rt s opcode payload) = AList.delete r (timers s)"
    and "next_id (handleMessage rt s opcode payload) = next_id s"
    unfolding same by (simp_all add: response_callback_fields)
  show "\<exists>extra. settlements (handleMessage rt s opcode payload) = settlements s @ extra
            \<and> (extra = [] \<or> (\<exists>out. correlated out \<and> extra = [(r, out)]))"
    unfolding same using response_callback_settlements [of rt ?s1 r message] by simp
  show "\<exists>out. settlements (handleMessage rt s opcode payload) = settlements s @ [(r, out)]"
    if "error_has_data message"
  proof -
    obtain fs where "message = JObj fs"
      using assms(2) v by (cases message) simp_all
    with that show ?thesis
      unfolding same using response_callback_settles [of fs rt ?s1 r] by simp
  qed
qed

lemma correlator_inv_handleMessage:
  assumes "correlator_inv s"
  shows "correlator_inv (handleMessage rt s opcode payload)"
proof (cases "\<exists>message v n r. JSON_parse rt payload = Some message
                \<and> get_prop (Some message) ''nonce'' = Inr v \<and> pending_lookup s v = Some (n, r)")
  case False
  then have "\<And>message v. JSON_parse rt payload = Some message \<Longrightarrow>
             get_prop (Some message) ''nonce'' = Inr v \<Longrightarrow> pending_lookup s v = None"
    by (metis option.exhaust surj_pair)
  from handleMessage_unmatched [OF this] assms show ?thesis
    by (simp add: correlator_inv_cong [of "handleMessage rt s opcode payload" s])
next
  case True
  then obtain message v n r where m: "JSON_parse rt payload = Some message"
    "get_prop (Some message) ''nonce'' = Inr v" "pending_lookup s v = Some (n, r)"
    by blast
  note fields = handleMessage_matched_fields [OF m, of opcode]
  from pending_lookup_Some [OF m(3)] have "map_of (pendingResponses s) n = Some r"
    by simp
  with correlator_invD(3) [OF assms] obtain cmd where armed: "map_of (timers s) r = Some (n, cmd)"
    by blast
  from fields(4) obtain extra where
    "settlements (handleMessage rt s opcode payload) = settlements s @ extra"
    "extra = [] \<or> (\<exists>out. extra = [(r, out)])"
    by blast
  with assms armed fields(2,1,3) show ?thesis
    by (rule correlator_inv_fire)
qed

lemma promise_state_append:
  "promise_state s r \<noteq> None \<Longrightarrow> settlements s' = settlements s @ extra \<Longrightarrow>
   promise_state s' r \<noteq> None"
  by (auto simp: promise_state_def)

lemma settled_or_armed_handleMessage:
  assumes "settled_or_armed s"
      and "plain rt (Frame opcode payload)"
  shows "settled_or_armed (handleMessage rt s opcode payload)"
proof (cases "\<exists>message v n r. JSON_parse rt payload = Some message
                \<and> get_prop (Some message) ''nonce'' = Inr v \<and> pending_lookup s v = Some (n, r)")
  case False
  then have "\<And>message v. JSON_parse rt payload = Some message \<Longrightarrow>
             get_prop (Some message) ''nonce'' = Inr v \<Longrightarrow> pending_lookup s v = None"
    by (metis option.exhaust surj_pair)
  from handleMessage_unmatched [OF this] assms show ?thesis
    by (simp add: settled_or_armed_cong [of "handleMessage rt s opcode payload" s])
next
  case True
  then obtain message v n r where m: "JSON_parse rt payload = Some message"
    "get_prop (Some message) ''nonce'' = Inr v" "pending_lookup s v = Some (n, r)"
    by blast
  let ?s' = "handleMessage rt s opcode payload"
  note fields = handleMessage_matched_fields [OF m, of opcode]
  have "error_has_data message"
    using assms(2) m(1) by simp
  from fields(5) [OF this] obtain out where
    st: "settlements ?s' = settlements s @ [(r, out)]"
    by blast
  have "promise_state ?s' x \<noteq> None \<or> map_of (timers ?s') x \<noteq> None" if "x < next_id s" for x
  proof (cases "x = r")
    case True
    then show ?thesis
      by (simp add: promise_state_def st)
  next
    case False
    from that assms(1) have "promise_state s x \<noteq> None \<or> map_of (timers s) x \<noteq> None"
      by (simp add: settled_or_armed_def)
    with False show ?thesis
      using promise_state_append [OF _ st, of x] by (auto simp: fields(2) delete_conv')
  qed
  then show ?thesis
    by (simp add: settled_or_armed_def fields(3))
qed


lemma foldl_log_fields:
  "pendingResponses (foldl (\<lambda>t i. log t l (f i)) s xs) = pendingResponses s"
  "timers (foldl (\<lambda>t i. log t l (f i)) s xs) = timers s"
  "settlements (foldl (\<lambda>t i. log t l (f i)) s xs) = settlements s"
  "next_id (foldl (\<lambda>t i. log t l (f i)) s xs) = next_id s"
  by (induction xs arbitrary: s) simp_all

lemma connect_fields:
  "pendingResponses (after (connect s accepting)) = pendingResponses s"
  "timers (after (connect s accepting)) = timers s"
  "settlements (after (connect s accepting)) = settlements s"
  "next_id (after (connect s accepting)) = next_id s"
  by (simp_all add: connect_def after_def Let_def foldl_log_fields)

lemma send_fields:
  "pendingResponses (after (send rt s opcode data)) = pendingResponses s"
  "timers (after (send rt s opcode data)) = timers s"
  "settlements (after (send rt s opcode data)) = settlements s"
  "next_id (after (send rt s opcode data)) = next_id s"
  by (simp_all add: send_def after_def split: sum.splits)

lemma handshake_fields:
  "pendingResponses (after (handshake rt s)) = pendingResponses s"
  "timers (after (handshake rt s)) = timers s"
  "settlements (after (handshake rt s)) = settlements s"
  "next_id (after (handshake rt s)) = next_id s"
  by (auto simp: handshake_def after_def split: option.splits sum.splits
      dest: send_Inr_fields send_Inl(1))

lemma on_close_fields:
  "pendingResponses (on_close s) = pendingResponses s"
  "timers (on_close s) = timers s"
  "settlements (on_close s) = settlements s"
  "next_id (on_close s) = next_id s"
  by (simp_all add: on_close_def scheduleReconnect_def Let_def)

lemma correlator_inv_disconnect:
  assumes "correlator_inv s"
  shows "correlator_inv (disconnect s)"
  using correlator_invD [OF assms]
  by (simp add: correlator_inv_def disconnect_fields firings_cong [of "disconnect s" s])

lemma processQueue_fields:
  "processQueue rt s = Some res \<Longrightarrow>
   pendingResponses (after res) = pendingResponses s \<and> timers (after res) = timers s
   \<and> settlements (after res) = settlements s \<and> next_id (after res) = next_id s"
proof (rule processQueue.raw_induct
    [where P = "\<lambda>rt s res. pendingResponses (after res) = pendingResponses s
       \<and> timers (after res) = timers s \<and> settlements (after res) = settlements s
       \<and> next_id (after res) = next_id s"])
  fix f and rt :: runtime and s :: session and res :: "(error \<times> session) + session"
  assume IH: "\<And>rt s res. f rt s = Some res \<Longrightarrow>
                pendingResponses (after res) = pendingResponses s \<and> timers (after res) = timers s
                \<and> settlements (after res) = settlements s \<and> next_id (after res) = next_id s"
    and body: "(case messageQueue s of
                  [] \<Rightarrow> Some (Inr s)
                | entry # rest \<Rightarrow>
                   (case send rt (s\<lparr>messageQueue := rest\<rparr>) (fst entry) (snd entry) of
                      Inl x \<Rightarrow> Some (Inl x)
                    | Inr s' \<Rightarrow> f rt s')) = Some res"
  show "pendingResponses (after res) = pendingResponses s \<and> timers (after res) = timers s
        \<and> settlements (after res) = settlements s \<and> next_id (after res) = next_id s"
  proof (cases "messageQueue s")
    case Nil
    with body show ?thesis
      by (auto simp: after_def)
  next
    case (Cons entry rest)
    let ?s1 = "s\<lparr>messageQueue := rest\<rparr>"
    show ?thesis
    proof (cases "send rt ?s1 (fst entry) (snd entry)")
      case (Inl x)
      obtain e s' where x: "x = (e, s')"
        by (cases x)
      with Inl have "s' = ?s1"
        by (auto dest: send_Inl(1))
      with body Cons Inl x show ?thesis
        by (auto simp: after_def)
    next
      case (Inr s')
      with body Cons have "f rt s' = Some res"
        by simp
      from IH [OF this] send_Inr_fields(1,2,3,4) [OF Inr] show ?thesis
        by simp
    qed
  qed
qed

lemma authenticate_start_sendCommand:
  "\<exists>cmd args t. authenticate_start rt s accessToken nonce = sendCommand rt s cmd args t nonce"
  unfolding authenticate_start_def by (cases "no_token accessToken") auto

lemma authenticate_finish_fields:
  assumes "authenticate_finish rt s = Some res"
  shows "pendingResponses (after res) = pendingResponses s \<and> timers (after res) = timers s
         \<and> settlements (after res) = settlements s \<and> next_id (after res) = next_id s"
proof -
  from assms
  have "processQueue rt (emit (s\<lparr>authenticated := True\<rparr>) EvAuthenticated) = Some res"
    by (simp add: authenticate_finish_def)
  from processQueue_fields [OF this] show ?thesis
    by simp
qed

lemma authenticate_resume_fields:
  assumes "authenticate_resume rt s accessToken out = Some res"
  shows "pendingResponses (after res) = pendingResponses s \<and> timers (after res) = timers s
         \<and> settlements (after res) = settlements s \<and> next_id (after res) = next_id s"
proof (cases out)
  case (Resolved response)
  show ?thesis
  proof (cases "no_token accessToken")
    case True
    with assms Resolved
    have "authenticate_finish rt (log s Info AuthorizationSuccessful) = Some res"
      by (simp add: authenticate_resume_def)
    from authenticate_finish_fields [OF this] show ?thesis
      by simp
  next
    case False
    with assms Resolved have "authenticate_finish rt s = Some res"
      by (simp add: authenticate_resume_def)
    then show ?thesis
      by (rule authenticate_finish_fields)
  qed
next
  case (Rejected e)
  show ?thesis
  proof (cases "no_token accessToken")
    case False
    with assms Rejected have "res = Inl (e, s)"
      by (simp add: authenticate_resume_def)
    then show ?thesis
      by (simp add: after_def)
  next
    case True
    let ?s1 = "log s Warn (AuthorizationFailed (message_of e))"
    show ?thesis
    proof (cases "str_includes (message_of e) ''Invalid Client ID''
                  \<or> str_includes (message_of e) ''Unknown Application''")
      case marked: True
      with assms Rejected True have "res = Inl (InvalidClientId (clientId ?s1), ?s1)"
        by (simp add: authenticate_resume_def Let_def del: message_of.simps)
      then show ?thesis
        by (simp add: after_def)
    next
      case unmarked: False
      with assms Rejected True
      have "authenticate_finish rt (log ?s1 Warn ContinuingWithoutAuth) = Some res"
        by (simp add: authenticate_resume_def Let_def del: message_of.simps)
      from authenticate_finish_fields [OF this] show ?thesis
        by simp
    qed
  qed
qed

lemma setActivity_start_sendCommand:
  "step rt s (SetActivity activity pid nonce) = s
   \<or> (\<exists>cmd args t. step rt s (SetActivity activity pid nonce)
                      = fst (sendCommand rt s cmd args t nonce))"
proof (cases "processActivity s activity")
  case (Inl e)
  then show ?thesis
    by (simp add: setActivity_start_def)
next
  case (Inr p)
  then have "step rt s (SetActivity activity pid nonce)
               = fst (sendCommand rt s ''SET_ACTIVITY''
                        (JObj [(''pid'', JNum pid), (''activity'', JObj p)]) 10000 nonce)"
    by (simp add: setActivity_start_def Let_def split: prod.splits)
  then show ?thesis
    by blast
qed

lemma resume_fields:
  "pendingResponses (after (setActivity_resume s p out)) = pendingResponses s"
  "timers (after (setActivity_resume s p out)) = timers s"
  "settlements (after (setActivity_resume s p out)) = settlements s"
  "next_id (after (setActivity_resume s p out)) = next_id s"
  "pendingResponses (after (clearActivity_resume s out)) = pendingResponses s"
  "timers (after (clearActivity_resume s out)) = timers s"
  "settlements (after (clearActivity_resume s out)) = settlements s"
  "next_id (after (clearActivity_resume s out)) = next_id s"
  "pendingResponses (on_error s text) = pendingResponses s"
  "timers (on_error s text) = timers s"
  "settlements (on_error s text) = settlements s"
  "next_id (on_error s text) = next_id s"
  by (simp_all add: setActivity_resume_def clearActivity_resume_def on_error_def after_def
      split: outcome.splits)

text \<open>
  The handlers that never call \<open>sendCommand\<close>, a callback or a timer leave the map, the
  timers, the promises and the numbering as they are.
\<close>

lemma quiet_steps:
  "pendingResponses (step rt s (Connect accepting)) = pendingResponses s
   \<and> timers (step rt s (Connect accepting)) = timers s
   \<and> settlements (step rt s (Connect accepting)) = settlements s
   \<and> next_id (step rt s (Connect accepting)) = next_id s"
  "pendingResponses (step rt s Handshake) = pendingResponses s
   \<and> timers (step rt s Handshake) = timers s
   \<and> settlements (step rt s Handshake) = settlements s
   \<and> next_id (step rt s Handshake) = next_id s"
  "pendingResponses (step rt s (Send opcode data)) = pendingResponses s
   \<and> timers (step rt s (Send opcode data)) = timers s
   \<and> settlements (step rt s (Send opcode data)) = settlements s
   \<and> next_id (step rt s (Send opcode data)) = next_id s"
  "pendingResponses (step rt s (SetActivityResume p out)) = pendingResponses s
   \<and> timers (step rt s (SetActivityResume p out)) = timers s
   \<and> settlements (step rt s (SetActivityResume p out)) = settlements s
   \<and> next_id (step rt s (SetActivityResume p out)) = next_id s"
  "pendingResponses (step rt s (ClearActivityResume out)) = pendingResponses s
   \<and> timers (step rt s (ClearActivityResume out)) = timers s
   \<and> settlements (step rt s (ClearActivityResume out)) = settlements s
   \<and> next_id (step rt s (ClearActivityResume out)) = next_id s"
  "pendingResponses (step rt s Close) = pendingResponses s
   \<and> timers (step rt s Close) = timers s
   \<and> settlements (step rt s Close) = settlements s
   \<and> next_id (step rt s Close) = next_id s"
  "pendingResponses (step rt s (SocketFails text)) = pendingResponses s
   \<and> timers (step rt s (SocketFails text)) = timers s
   \<and> settlements (step rt s (SocketFails text)) = settlements s
   \<and> next_id (step rt s (SocketFails text)) = next_id s"
  by (simp_all add: connect_fields handshake_fields send_fields resume_fields on_close_fields)

lemma quiet_authenticate_resume:
  "pendingResponses (step rt s (AuthenticateResume accessToken out)) = pendingResponses s
   \<and> timers (step rt s (AuthenticateResume accessToken out)) = timers s
   \<and> settlements (step rt s (AuthenticateResume accessToken out)) = settlements s
   \<and> next_id (step rt s (AuthenticateResume accessToken out)) = next_id s"
proof (cases "authenticate_resume rt s accessToken out")
  case None
  then show ?thesis
    by simp
next
  case (Some res)
  from authenticate_resume_fields [OF this] Some show ?thesis
    by simp
qed

lemma step_kinds:
  obtains (quiet) "pendingResponses (step rt s a) = pendingResponses s"
      "timers (step rt s a) = timers s" "settlements (step rt s a) = settlements s"
      "next_id (step rt s a) = next_id s"
  | (command) cmd args t nonce where "step rt s a = fst (sendCommand rt s cmd args t nonce)"
  | (frame) opcode payload where "a = Frame opcode payload"
  | (fires) r where "a = Timeout r"
  | (disconnect) "a = Disconnect"
proof (cases a)
  case (Connect accepting)
  with quiet_steps(1) [of rt s accepting] quiet show ?thesis
    by simp
next
  case Handshake
  with quiet_steps(2) [of rt s] quiet show ?thesis
    by simp
next
  case (Send opcode data)
  with quiet_steps(3) [of rt s opcode data] quiet show ?thesis
    by simp
next
  case (SendCommand cmd args t nonce)
  then show ?thesis
    using command [of cmd args t nonce] by simp
next
  case (Authenticate accessToken nonce)
  then show ?thesis
    using authenticate_start_sendCommand [of rt s accessToken nonce] command by auto
next
  case (AuthenticateResume accessToken out)
  with quiet_authenticate_resume [of rt s accessToken out] quiet show ?thesis
    by simp
next
  case (SetActivity activity pid nonce)
  show ?thesis
  proof (cases "step rt s a = s")
    case True
    then show ?thesis
      using quiet by simp
  next
    case False
    with SetActivity setActivity_start_sendCommand [of rt s activity pid nonce] command
    show ?thesis
      by auto
  qed
next
  case (SetActivityResume p out)
  with quiet_steps(4) [of rt s p out] quiet show ?thesis
    by simp
next
  case (ClearActivity pid nonce)
  then show ?thesis
    using command by (simp add: clearActivity_start_def)
next
  case (ClearActivityResume out)
  with quiet_steps(5) [of rt s out] quiet show ?thesis
    by simp
next
  case (Frame opcode payload)
  then show ?thesis
    using frame by simp
next
  case (Timeout r)
  then show ?thesis
    using fires by simp
next
  case Close
  with quiet_steps(6) [of rt s] quiet show ?thesis
    by simp
next
  case (SocketFails why)
  with quiet_steps(7) [of rt s why] quiet show ?thesis
    by simp
next
  case Disconnect
  then show ?thesis
    using disconnect by simp
qed

lemma correlator_inv_step:
  assumes "correlator_inv s"
  shows "correlator_inv (step rt s a)"
proof (cases rule: step_kinds [of rt s a])
  case quiet
  with assms show ?thesis
    by (simp add: correlator_inv_cong [of "step rt s a" s])
next
  case (command cmd args t nonce)
  with assms show ?thesis
    by (simp add: correlator_inv_sendCommand)
next
  case (frame opcode payload)
  with assms show ?thesis
    by (simp add: correlator_inv_handleMessage)
next
  case (fires r)
  with assms show ?thesis
    by (simp add: correlator_inv_command_timeout)
next
  case disconnect
  with assms show ?thesis
    by (simp add: correlator_inv_disconnect)
qed

lemma settled_or_armed_step:
  assumes "settled_or_armed s" "plain rt a"
  shows "settled_or_armed (step rt s a)"
proof (cases rule: step_kinds [of rt s a])
  case quiet
  with assms show ?thesis
    by (simp add: settled_or_armed_cong [of "step rt s a" s])
next
  case (command cmd args t nonce)
  with assms show ?thesis
    by (simp add: settled_or_armed_sendCommand)
next
  case (frame opcode payload)
  with assms show ?thesis
    by (simp only: step.simps settled_or_armed_handleMessage)
next
  case (fires r)
  with assms show ?thesis
    by (simp add: settled_or_armed_command_timeout)
next
  case disconnect
  with assms show ?thesis
    by (simp add: settled_or_armed_cong [of "disconnect s" s] disconnect_fields)
qed

lemma correlator_inv_run:
  "correlator_inv s \<Longrightarrow> correlator_inv (run rt s acts)"
  unfolding run_def by (induction acts arbitrary: s) (simp_all add: correlator_inv_step)

lemma settled_or_armed_run:
  "settled_or_armed s \<Longrightarrow> \<forall>a \<in> set acts. plain rt a \<Longrightarrow> settled_or_armed (run rt s acts)"
  unfolding run_def by (induction acts arbitrary: s) (simp_all add: settled_or_armed_step)

lemma constructor_inv:
  "correlator_inv (constructor opts)" "settled_or_armed (constructor opts)"
  by (simp_all add: correlator_inv_def settled_or_armed_def constructor_fields firings_def)

lemma settlement_kinds_step:
  assumes "\<forall>x \<in> set (settlements s). correlated (snd x) \<or> refused (snd x)"
  shows "\<forall>x \<in> set (settlements (step rt s a)). correlated (snd x) \<or> refused (snd x)"
proof (cases rule: step_kinds [of rt s a])
  case quiet
  with assms show ?thesis by simp
next
  case (command cmd args t nonce)
  with assms show ?thesis
    by (auto simp: sendCommand_settlements refused_def frame_bytes_def writeUInt32LE_def Let_def
        split: if_splits sum.splits)
next
  case (frame opcode payload)
  show ?thesis
  proof (cases "\<exists>message v n r. JSON_parse rt payload = Some message
                \<and> get_prop (Some message) ''nonce'' = Inr v \<and> pending_lookup s v = Some (n, r)")
    case False
    then have "\<And>message v. JSON_parse rt payload = Some message \<Longrightarrow>
               get_prop (Some message) ''nonce'' = Inr v \<Longrightarrow> pending_lookup s v = None"
      by (metis option.exhaust surj_pair)
    from handleMessage_unmatched(3) [OF this] assms frame show ?thesis
      by simp
  next
    case True
    then obtain message v n r where m: "JSON_parse rt payload = Some message"
      "get_prop (Some message) ''nonce'' = Inr v" "pending_lookup s v = Some (n, r)"
      by blast
    from handleMessage_matched_fields(4) [OF m, of opcode] assms frame show ?thesis
      by auto
  qed
next
  case (fires r)
  with assms show ?thesis
    by (auto simp: command_timeout_def split: option.splits)
next
  case disconnect
  with assms show ?thesis by (simp add: disconnect_fields)
qed

lemma settlement_kinds_run:
  "\<forall>x \<in> set (settlements s). correlated (snd x) \<or> refused (snd x) \<Longrightarrow>
   \<forall>x \<in> set (settlements (run rt s acts)). correlated (snd x) \<or> refused (snd x)"
  unfolding run_def
proof (induction acts arbitrary: s)
  case Nil
  then show ?case by simp
next
  case (Cons a acts)
  from Cons.IH [OF settlement_kinds_step [OF Cons.prems]] show ?case
    by simp
qed

lemma unmatched_message_event:
  assumes "JSON_parse rt payload = Some message"
      and "get_prop (Some message) ''nonce'' = Inr (Some (JStr n))"
      and "map_of (pendingResponses s) n = None"
      and "get_prop (Some message) ''cmd'' \<noteq> Inr (Some (JStr ''DISPATCH''))"
  shows "events (handleMessage rt s opcode payload) = events s @ [EvMessage message]"
proof -
  obtain fs where "message = JObj fs"
    using assms(2) by (cases message) simp_all
  with assms show ?thesis
    by (simp add: handleMessage_def handleMessage_try_def Let_def)
qed

text \<open>
  C3, as the code has it. In every session reached from the constructor by the handlers:
  the pending map has one entry per nonce at most; for every promise of \<open>sendCommand\<close> at
  most one of the three firings (resolution with the matched response, rejection with the
  remote's error, rejection with the time-out error) ever happens, and a promise is only
  ever settled by one of them or by the exception \<open>send\<close> threw inside \<open>sendCommand\<close>;
  as long as no matched \<open>ERROR\<close> response came without a \<open>data\<close> to read, a promise that
  is not settled still has its timer armed. A \<open>sendCommand\<close> on a session that is
  disconnected with auto-reconnect off rejects its promise at once with the not-connected
  error. A frame whose nonce has no entry in the map calls no callback: map, timers and
  settlements stay as they are, and unless its \<open>cmd\<close> is \<open>DISPATCH\<close> the frame is passed
  on to the listeners as a \<open>message\<close> notification.
\<close>

theorem correlator_settles_at_most_once:
  fixes rt :: runtime and opts :: options and acts :: "action list"
  defines "s \<equiv> run rt (constructor opts) acts"
  shows "distinct (map fst (pendingResponses s))
       \<and> (\<forall>r. length (firings s r) \<le> 1)
       \<and> (\<forall>r out. promise_state s r = Some out \<longrightarrow> correlated out \<or> refused out)
       \<and> ((\<forall>a \<in> set acts. plain rt a) \<longrightarrow>
            (\<forall>r < next_id s. promise_state s r = None \<longrightarrow> map_of (timers s) r \<noteq> None))
       \<and> (\<forall>cmd args t nonce. \<not> connected s \<and> \<not> autoReconnect s \<longrightarrow>
            promise_state (fst (sendCommand rt s cmd args t nonce)) (next_id s)
              = Some (Rejected NotConnected))
       \<and> (\<forall>opcode payload message n.
            JSON_parse rt payload = Some message
            \<and> get_prop (Some message) ''nonce'' = Inr (Some (JStr n))
            \<and> map_of (pendingResponses s) n = None \<longrightarrow>
            pendingResponses (handleMessage rt s opcode payload) = pendingResponses s
            \<and> timers (handleMessage rt s opcode payload) = timers s
            \<and> settlements (handleMessage rt s opcode payload) = settlements s
            \<and> (get_prop (Some message) ''cmd'' \<noteq> Inr (Some (JStr ''DISPATCH'')) \<longrightarrow>
                 events (handleMessage rt s opcode payload) = events s @ [EvMessage message]))"
proof (intro conjI allI impI)
  have inv: "correlator_inv s"
    unfolding s_def by (intro correlator_inv_run constructor_inv)
  note invD = correlator_invD [OF inv]
  show "distinct (map fst (pendingResponses s))"
    by (rule invD(1))
  show "length (firings s r) \<le> 1" for r
    by (rule invD(7))
  show "correlated out \<or> refused out" if "promise_state s r = Some out" for r out
  proof -
    have "\<forall>x \<in> set (settlements s). correlated (snd x) \<or> refused (snd x)"
      unfolding s_def by (intro settlement_kinds_run) (simp add: constructor_fields)
    moreover from that have "(r, out) \<in> set (settlements s)"
      unfolding promise_state_def by (rule map_of_SomeD)
    ultimately show ?thesis
      by auto
  qed
  show "map_of (timers s) r \<noteq> None"
    if "\<forall>a \<in> set acts. plain rt a" "r < next_id s" "promise_state s r = None" for r
  proof -
    have "settled_or_armed s"
      unfolding s_def using that(1) by (intro settled_or_armed_run constructor_inv)
    with that(2,3) show ?thesis
      by (auto simp: settled_or_armed_def)
  qed
  show "promise_state (fst (sendCommand rt s cmd args t nonce)) (next_id s)
              = Some (Rejected NotConnected)"
    if "\<not> connected s \<and> \<not> autoReconnect s" for cmd args t nonce
  proof -
    have "\<forall>out. (next_id s, out) \<notin> set (settlements s)"
      using invD(5) [of "next_id s"] by auto
    then have "map_of (settlements s) (next_id s) = None"
      by (auto simp: map_of_eq_None_iff image_iff)
    with that show ?thesis
      by (simp add: promise_state_def sendCommand_settlements map_add_def)
  qed
next
  fix opcode payload message n
  assume a: "JSON_parse rt payload = Some message
            \<and> get_prop (Some message) ''nonce'' = Inr (Some (JStr n))
            \<and> map_of (pendingResponses s) n = None"
  have "pending_lookup s v = None"
    if "JSON_parse rt payload = Some message'" "get_prop (Some message') ''nonce'' = Inr v"
    for message' v
    using that a by auto
  from handleMessage_unmatched [OF this]
  show "pendingResponses (handleMessage rt s opcode payload) = pendingResponses s"
    and "timers (handleMessage rt s opcode payload) = timers s"
    and "settlements (handleMessage rt s opcode payload) = settlements s"
    by simp_all
  show "events (handleMessage rt s opcode payload) = events s @ [EvMessage message]"
    if "get_prop (Some message) ''cmd'' \<noteq> Inr (Some (JStr ''DISPATCH''))"
  proof (rule unmatched_message_event)
    show "JSON_parse rt payload = Some message"
      and "get_prop (Some message) ''nonce'' = Inr (Some (JStr n))"
      and "map_of (pendingResponses s) n = None"
      using a by blast+
    show "get_prop (Some message) ''cmd'' \<noteq> Inr (Some (JStr ''DISPATCH''))"
      by (rule that)
  qed
qed


theorem correlator_settles_at_most_once_witness:
  "promise_state (run (table_runtime []) (constructor example_options)
                    [SendCommand ''GET_USER'' (JObj []) 100 ''n1'']) 0 = None
   \<and> (\<exists>armed. map_of (timers (run (table_runtime []) (constructor example_options)
                                  [SendCommand ''GET_USER'' (JObj []) 100 ''n1''])) 0 = Some armed)
   \<and> distinct (map fst (pendingResponses (run (table_runtime []) (constructor example_options)
                                  [SendCommand ''GET_USER'' (JObj []) 100 ''n1''])))
   \<and> length (firings (run (table_runtime []) (constructor example_options)
                         [SendCommand ''GET_USER'' (JObj []) 100 ''n1'']) 0) \<le> 1"
proof -
  let ?rt = "table_runtime []"
  let ?acts = "[SendCommand ''GET_USER'' (JObj []) 100 ''n1'']"
  let ?S = "run ?rt (constructor example_options) ?acts"
  note claim = correlator_settles_at_most_once
    [where rt = ?rt and opts = example_options and acts = ?acts]
  have plain: "\<forall>a \<in> set ?acts. plain ?rt a"
    by simp
  have issued: "0 < next_id ?S" and unsettled: "promise_state ?S 0 = None"
    by (simp_all add: run_def sendCommand_fields sendCommand_settlements constructor_fields
        promise_state_def example_options_def)
  have "map_of (timers ?S) 0 \<noteq> None"
    using claim [THEN conjunct2, THEN conjunct2, THEN conjunct2, THEN conjunct1]
      plain issued unsettled by blast
  then have "\<exists>armed. map_of (timers ?S) 0 = Some armed"
    by blast
  with unsettled claim [THEN conjunct1] claim [THEN conjunct2, THEN conjunct1] show ?thesis
    by blast
qed

text \<open>
  C3 as stated fails: on a session that is disconnected with auto-reconnect off,
  \<open>sendCommand\<close> rejects its promise with the not-connected error, which is none of
  response, remote error and time-out; the entry stays in the map and the timer stays
  armed, and when it fires it calls \<open>reject\<close> a second time.
\<close>

theorem sendCommand_can_reject_unsent:
  "promise_state (fst (sendCommand (table_runtime []) (constructor manual_options)
                         ''GET_USER'' (JObj []) 100 ''n1'')) 0 = Some (Rejected NotConnected)
   \<and> \<not> correlated (Rejected NotConnected)
   \<and> pendingResponses (fst (sendCommand (table_runtime []) (constructor manual_options)
                         ''GET_USER'' (JObj []) 100 ''n1'')) = [(''n1'', 0)]
   \<and> settlements (command_timeout (fst (sendCommand (table_runtime []) (constructor manual_options)
                         ''GET_USER'' (JObj []) 100 ''n1'')) 0)
       = [(0, Rejected NotConnected), (0, Rejected (CommandTimeout ''GET_USER''))]"
  by (simp add: promise_state_def sendCommand_fields sendCommand_settlements constructor_fields
      manual_options_def example_options_def command_timeout_armed)

text \<open>
  Outside the statement above: a matched response whose \<open>evt\<close> is \<open>'ERROR'\<close> and that has
  no \<open>data\<close>. The callback clears the timer, then reading \<open>response.data.message\<close> throws
  inside the \<open>try\<close> of \<open>handleMessage\<close>, and neither \<open>resolve\<close> nor \<open>reject\<close> is called:
  the entry and the timer are gone and the promise stays pending.
\<close>

lemma error_without_data_leaves_promise_pending:
  "promise_state
     (handleMessage (table_runtime [(bare_error, bare_error_text)])
        (fst (sendCommand (table_runtime [(bare_error, bare_error_text)]) connected_session
                ''GET_USER'' (JObj []) 100 ''n1''))
        1 (ascii bare_error_text)) 0 = None
   \<and> timers
       (handleMessage (table_runtime [(bare_error, bare_error_text)])
          (fst (sendCommand (table_runtime [(bare_error, bare_error_text)]) connected_session
                  ''GET_USER'' (JObj []) 100 ''n1''))
          1 (ascii bare_error_text)) = []
   \<and> pendingResponses
       (handleMessage (table_runtime [(bare_error, bare_error_text)])
          (fst (sendCommand (table_runtime [(bare_error, bare_error_text)]) connected_session
                  ''GET_USER'' (JObj []) 100 ''n1''))
          1 (ascii bare_error_text)) = []"
proof -
  let ?rt = "table_runtime [(bare_error, bare_error_text)]"
  let ?s1 = "fst (sendCommand ?rt connected_session ''GET_USER'' (JObj []) 100 ''n1'')"
  let ?message = "JObj [(''cmd'', JStr ''GET_USER''), (''nonce'', JStr ''n1''),
      (''args'', JObj [])]"
  have parse: "JSON_parse ?rt (ascii bare_error_text) = Some bare_error"
    by (simp add: table_runtime_def)
  have nonce: "get_prop (Some bare_error) ''nonce'' = Inr (Some (JStr ''n1''))"
    by (simp add: bare_error_def)
  have "frame_bytes ?rt 1 ?message = Inr (frame_of 1 (JSON_stringify ?rt ?message))"
    using frame_bytes_frame_of [of 1 ?rt ?message]
    by (simp add: table_runtime_def ascii_def bare_error_text_def split: option.splits)
  then have before: "settlements ?s1 = []" "pendingResponses ?s1 = [(''n1'', 0)]"
    "timers ?s1 = [(0, ''n1'', ''GET_USER'')]"
    by (simp_all add: sendCommand_fields sendCommand_settlements connected_session_fields)
  then have pending: "map_of (pendingResponses ?s1) ''n1'' = Some 0"
    by simp
  have "handleMessage ?rt ?s1 1 (ascii bare_error_text)
      = (case response_callback ?rt
                     ((log ?s1 Info (Received bare_error))
                        \<lparr>pendingResponses := AList.delete ''n1'' (pendingResponses ?s1)\<rparr>)
                     0 bare_error of
                Inl (e, s') \<Rightarrow> log s' ErrorLevel (FailedToParse e)
              | Inr s' \<Rightarrow> s')"
    using parse nonce _ pending by (rule handleMessage_matched) simp
  then show ?thesis
    using before
    by (simp add: response_callback_def bare_error_def promise_state_def Let_def)
qed

end
